theory Spec2Isabelle
  imports Main "HOL-Library.Sublist"
begin

section \<open>Strings\<close>

text \<open>
  A string of the language is the list of its UTF-16 code units, and an expression
  without the \<^verbatim>\<open>u\<close> flag works on code units. A code unit is written as its high byte and
  its low byte; \<open>asc c\<close> is the code unit of the 8-bit character \<open>c\<close>, and \<open>js\<close> turns a
  literal into a string.
\<close>

type_synonym unit16 = "char \<times> char"

type_synonym jsstring = "unit16 list"

abbreviation asc :: "char \<Rightarrow> unit16" where
  "asc c \<equiv> (CHR 0x00, c)"

primrec js :: "string \<Rightarrow> jsstring" where
  "js [] = []"
| "js (c # cs) = asc c # js cs"

abbreviation LF :: unit16 where "LF \<equiv> asc (CHR 0x0A)"

abbreviation CR :: unit16 where "CR \<equiv> asc (CHR 0x0D)"

abbreviation LS :: unit16 where "LS \<equiv> (CHR 0x20, CHR 0x28)"

abbreviation PS :: unit16 where "PS \<equiv> (CHR 0x20, CHR 0x29)"

abbreviation BT :: unit16 where "BT \<equiv> asc (CHR 0x60)"

abbreviation HASH :: unit16 where "HASH \<equiv> asc (CHR 0x23)"

abbreviation STAR :: unit16 where "STAR \<equiv> asc (CHR 0x2A)"

section \<open>JavaScript values\<close>

text \<open>
  The editor's change callback delivers \<^verbatim>\<open>string | undefined\<close> (and \<^verbatim>\<open>null\<close> is the other
  absent value of the language). \<^verbatim>\<open>a || b\<close> yields \<^verbatim>\<open>a\<close> when \<^verbatim>\<open>a\<close> is truthy and \<^verbatim>\<open>b\<close>
  otherwise; the empty string is falsy.
\<close>

datatype js_value = Undefined | Null | Str jsstring

fun truthy :: "js_value \<Rightarrow> bool" where
  "truthy Undefined = False"
| "truthy Null = False"
| "truthy (Str t) = (t \<noteq> [])"

definition js_or :: "js_value \<Rightarrow> js_value \<Rightarrow> js_value" where
  "js_or a b = (if truthy a then a else b)"

section \<open>Regular expressions of the workbench\<close>

text \<open>
  A regular expression is modelled by its match attempt at one position: given the
  code unit before the position (\<open>None\<close> at index 0) and the text from the position on,
  it yields the length of the match starting there and its capture groups.
  The line terminators are line feed, carriage return, line separator (U+2028) and
  paragraph separator (U+2029).
\<close>

type_synonym regex = "unit16 option \<Rightarrow> jsstring \<Rightarrow> (nat \<times> jsstring list) option"

definition lineTerminator :: "unit16 \<Rightarrow> bool" where
  "lineTerminator c = (c = LF \<or> c = CR \<or> c = LS \<or> c = PS)"

definition dot :: "unit16 \<Rightarrow> bool" where
  "dot c = (\<not> lineTerminator c)"

text \<open>\<^verbatim>\<open>^\<close> under the \<^verbatim>\<open>m\<close> flag: start of input, or just after a line terminator.\<close>

fun lineStart :: "unit16 option \<Rightarrow> bool" where
  "lineStart None = True"
| "lineStart (Some c) = lineTerminator c"

text \<open>Index of the first and of the last occurrence of a pattern in a text.\<close>

fun first_occ :: "jsstring \<Rightarrow> jsstring \<Rightarrow> nat option" where
  "first_occ pat [] = (if pat = [] then Some 0 else None)"
| "first_occ pat (c # cs) =
     (if prefix pat (c # cs) then Some 0 else map_option Suc (first_occ pat cs))"

fun last_occ :: "jsstring \<Rightarrow> jsstring \<Rightarrow> nat option" where
  "last_occ pat [] = (if pat = [] then Some 0 else None)"
| "last_occ pat (c # cs) =
     (case last_occ pat cs of
        Some k \<Rightarrow> Some (Suc k)
      | None \<Rightarrow> (if prefix pat (c # cs) then Some 0 else None))"

text \<open>
  \<^verbatim>\<open>/^# (.*$)/gim\<close> and its two siblings: at a line start, the marker, then the rest of
  the line (greedy \<^verbatim>\<open>.*\<close> stops at the first line terminator, where \<^verbatim>\<open>$\<close> holds).
\<close>

definition headingRegex :: "jsstring \<Rightarrow> regex" where
  "headingRegex marker prev s =
     (if lineStart prev \<and> prefix marker s
      then (let line = takeWhile dot (drop (length marker) s)
            in Some (length marker + length line, [line]))
      else None)"

text \<open>
  \<^verbatim>\<open>/\*\*(.*)\*\*/gim\<close> and \<^verbatim>\<open>/\*(.*)\*/gim\<close>: the delimiter, then greedy \<^verbatim>\<open>.*\<close> backing off
  to the last delimiter on the same line.
\<close>

definition emphasisRegex :: "jsstring \<Rightarrow> regex" where
  "emphasisRegex delim prev s =
     (if prefix delim s
      then (let line = takeWhile dot (drop (length delim) s)
            in case last_occ delim line of
                 None \<Rightarrow> None
               | Some k \<Rightarrow> Some (length delim + k + length delim, [take k line]))
      else None)"

text \<open>
  \<^verbatim>\<open>/```mermaid\n([\s\S]*?)\n```/g\<close>: the opening fence with its line feed, then the
  shortest body followed by a line feed and a closing fence.
\<close>

definition mermaidRegex :: regex where
  "mermaidRegex prev s =
     (if prefix (js ''```mermaid\<newline>'') s
      then (case first_occ (js ''\<newline>```'') (drop 11 s) of
              None \<Rightarrow> None
            | Some k \<Rightarrow> Some (11 + k + 4, [take k (drop 11 s)]))
      else None)"

text \<open>
  \<^verbatim>\<open>/```(.*?)\n([\s\S]*?)\n```/g\<close>: three backticks, the lazy \<^verbatim>\<open>.*?\<close> up to the first line
  terminator, which has to be a line feed, then the shortest body before a closing fence.
\<close>

definition codeRegex :: regex where
  "codeRegex prev s =
     (if prefix (js ''```'') s
      then (let lang = takeWhile dot (drop 3 s);
                after = drop (3 + length lang) s
            in if prefix (js ''\<newline>'') after
               then (case first_occ (js ''\<newline>```'') (drop 1 after) of
                       None \<Rightarrow> None
                     | Some k \<Rightarrow> Some (3 + length lang + 1 + k + 4, [lang, take k (drop 1 after)]))
               else None)
      else None)"

text \<open>\<^verbatim>\<open>/\n/g\<close>\<close>

definition newlineRegex :: regex where
  "newlineRegex prev s = (if prefix (js ''\<newline>'') s then Some (1, []) else None)"

subsection \<open>Replacement strings\<close>

text \<open>
  A replacement string is literal text with group references \<^verbatim>\<open>$1\<close>, \<^verbatim>\<open>$2\<close>; a reference
  to a group the expression does not have stays as it is written.
\<close>

datatype piece = Lit jsstring | G1 | G2

fun expand :: "piece list \<Rightarrow> jsstring list \<Rightarrow> jsstring" where
  "expand [] gs = []"
| "expand (Lit t # ps) gs = t @ expand ps gs"
| "expand (G1 # ps) gs = (case gs of g # _ \<Rightarrow> g | [] \<Rightarrow> (js ''$1'')) @ expand ps gs"
| "expand (G2 # ps) gs = (case gs of _ # g # _ \<Rightarrow> g | _ \<Rightarrow> (js ''$2'')) @ expand ps gs"

subsection \<open>\<^verbatim>\<open>String.prototype.replace\<close> and \<^verbatim>\<open>matchAll\<close> with a global expression\<close>

text \<open>
  The scan tries each position from the left; after a match it continues behind the
  match (one code unit further when the match is empty), and replaced text is not
  scanned again.
\<close>

fun gsub :: "regex \<Rightarrow> piece list \<Rightarrow> unit16 option \<Rightarrow> jsstring \<Rightarrow> jsstring" where
  "gsub rx repl prev [] =
     (case rx prev [] of None \<Rightarrow> [] | Some (n, gs) \<Rightarrow> expand repl gs)"
| "gsub rx repl prev (c # cs) =
     (case rx prev (c # cs) of
        None \<Rightarrow> c # gsub rx repl (Some c) cs
      | Some (0, gs) \<Rightarrow> expand repl gs @ c # gsub rx repl (Some c) cs
      | Some (Suc n, gs) \<Rightarrow>
          expand repl gs @ gsub rx repl (Some (last (take (Suc n) (c # cs)))) (drop n cs))"

definition replace :: "regex \<Rightarrow> piece list \<Rightarrow> jsstring \<Rightarrow> jsstring" where
  "replace rx repl text = gsub rx repl None text"

record rx_match =
  index :: nat
  whole :: jsstring
  captures :: "jsstring list"

fun matchAllFrom :: "regex \<Rightarrow> nat \<Rightarrow> unit16 option \<Rightarrow> jsstring \<Rightarrow> rx_match list" where
  "matchAllFrom rx i prev [] =
     (case rx prev [] of
        None \<Rightarrow> []
      | Some (n, gs) \<Rightarrow> [\<lparr>index = i, whole = [], captures = gs\<rparr>])"
| "matchAllFrom rx i prev (c # cs) =
     (case rx prev (c # cs) of
        None \<Rightarrow> matchAllFrom rx (Suc i) (Some c) cs
      | Some (0, gs) \<Rightarrow>
          \<lparr>index = i, whole = [], captures = gs\<rparr> # matchAllFrom rx (Suc i) (Some c) cs
      | Some (Suc n, gs) \<Rightarrow>
          \<lparr>index = i, whole = take (Suc n) (c # cs), captures = gs\<rparr>
            # matchAllFrom rx (i + Suc n) (Some (last (take (Suc n) (c # cs)))) (drop n cs))"

definition matchAll :: "regex \<Rightarrow> jsstring \<Rightarrow> rx_match list" where
  "matchAll rx text = matchAllFrom rx 0 None text"

section \<open>The workbench component\<close>

subsection \<open>\<^verbatim>\<open>renderMarkdown\<close>\<close>

definition h1_repl :: "piece list" where
  \<open>h1_repl = [Lit (js ''<h1 class="text-3xl font-bold mb-4">''), G1, Lit (js ''</h1>'')]\<close>

definition h2_repl :: "piece list" where
  \<open>h2_repl = [Lit (js ''<h2 class="text-2xl font-semibold mb-3">''), G1, Lit (js ''</h2>'')]\<close>

definition h3_repl :: "piece list" where
  \<open>h3_repl = [Lit (js ''<h3 class="text-xl font-medium mb-2">''), G1, Lit (js ''</h3>'')]\<close>

definition strong_repl :: "piece list" where
  "strong_repl = [Lit (js ''<strong>''), G1, Lit (js ''</strong>'')]"

definition em_repl :: "piece list" where
  "em_repl = [Lit (js ''<em>''), G1, Lit (js ''</em>'')]"

definition placeholder_repl :: "piece list" where
  \<open>placeholder_repl = [Lit (js ''<div class="diagram-placeholder">Diagram rendered above</div>'')]\<close>

definition pre_repl :: "piece list" where
  \<open>pre_repl = [Lit (js ''<pre class="bg-muted p-4 rounded-lg overflow-x-auto"><code>''), G2,
                Lit (js ''</code></pre>'')]\<close>

definition br_repl :: "piece list" where
  "br_repl = [Lit (js ''<br>'')]"

definition renderMarkdown :: "jsstring \<Rightarrow> jsstring" where
  "renderMarkdown text =
     replace newlineRegex br_repl
       (replace codeRegex pre_repl
         (replace mermaidRegex placeholder_repl
           (replace (emphasisRegex (js ''*'')) em_repl
             (replace (emphasisRegex (js ''**'')) strong_repl
               (replace (headingRegex (js ''### '')) h3_repl
                 (replace (headingRegex (js ''## '')) h2_repl
                   (replace (headingRegex (js ''# '')) h1_repl text)))))))"

text \<open>
  The first three calls of the chain (the heading rules) and the next two (bold, then
  italic), under names of their own: \<open>renderMarkdown\<close> is the two fence rules and the
  line-break rule applied to \<open>emphasisRules (headingRules text)\<close>.
\<close>

definition headingRules :: "jsstring \<Rightarrow> jsstring" where
  "headingRules text =
     replace (headingRegex (js ''### '')) h3_repl
       (replace (headingRegex (js ''## '')) h2_repl
         (replace (headingRegex (js ''# '')) h1_repl text))"

definition emphasisRules :: "jsstring \<Rightarrow> jsstring" where
  "emphasisRules text =
     replace (emphasisRegex (js ''*'')) em_repl
       (replace (emphasisRegex (js ''**'')) strong_repl text)"

subsection \<open>Component state\<close>

text \<open>
  The three \<^verbatim>\<open>useState\<close> cells, together with the calls made to \<^verbatim>\<open>mermaid.render\<close> so
  far (oldest first) and the positions in that list of the calls whose promise has not
  settled yet.
\<close>

record workbench =
  content :: js_value
  activeTab :: jsstring
  diagramHtml :: jsstring
  renderCalls :: "jsstring list"
  pending :: "nat list"

definition errorHtml :: jsstring where
  \<open>errorHtml = (js ''<p class="text-red-500">Error rendering diagram</p>'')\<close>

text \<open>
  \<^verbatim>\<open>extractMermaidDiagrams\<close> up to its \<^verbatim>\<open>await\<close>: with no match the diagram markup is
  cleared at once; otherwise \<^verbatim>\<open>mermaid.render\<close> is called with group 1 of the first match
  and the function suspends. \<^verbatim>\<open>matchAll\<close> on a value that is not a string throws inside
  the async function, whose promise nobody awaits: the state stays as it is.
\<close>

definition mermaidMatches :: "jsstring \<Rightarrow> rx_match list" where
  "mermaidMatches text = matchAll mermaidRegex text"

fun group1 :: "rx_match \<Rightarrow> jsstring" where
  "group1 m = (case captures m of g # _ \<Rightarrow> g | [] \<Rightarrow> [])"

definition extractMermaidDiagrams :: "workbench \<Rightarrow> workbench" where
  "extractMermaidDiagrams s =
     (case content s of
        Str text \<Rightarrow>
          (case mermaidMatches text of
             [] \<Rightarrow> s\<lparr>diagramHtml := []\<rparr>
           | m # _ \<Rightarrow> s\<lparr>renderCalls := renderCalls s @ [group1 m],
                         pending := pending s @ [length (renderCalls s)]\<rparr>)
      | _ \<Rightarrow> s)"

text \<open>
  The continuation after the \<^verbatim>\<open>await\<close>: the promise resolves with an object whose
  \<^verbatim>\<open>svg\<close> field is a string, or it rejects (a call that throws at once is caught by the
  same handler).
\<close>

datatype outcome = Resolved jsstring | Rejected

fun settle :: "outcome \<Rightarrow> workbench \<Rightarrow> workbench" where
  "settle (Resolved svg) s = s\<lparr>diagramHtml := svg\<rparr>"
| "settle Rejected s = s\<lparr>diagramHtml := errorHtml\<rparr>"

definition handleEditorChange :: "js_value \<Rightarrow> workbench \<Rightarrow> workbench" where
  "handleEditorChange v s = s\<lparr>content := js_or v (Str [])\<rparr>"

text \<open>
  The component as it is mounted on a document text (the source mounts it on a fixed
  sample document): the effect runs once after the first render.
\<close>

definition mounted :: "jsstring \<Rightarrow> workbench" where
  "mounted text =
     extractMermaidDiagrams
       \<lparr>content = Str text, activeTab = (js ''editor''), diagramHtml = [],
        renderCalls = [], pending = []\<rparr>"

text \<open>
  Events of the component; each one is followed by a render of the component before the
  next one arrives. The effect has the dependency list \<^verbatim>\<open>[content]\<close>: it runs again
  after a render in which \<^verbatim>\<open>content\<close> differs from the previous one. A promise settles
  once, so settling a call that is not pending does nothing.
\<close>

datatype event = EditorChange js_value | TabChange jsstring | RenderSettled nat outcome

fun step :: "event \<Rightarrow> workbench \<Rightarrow> workbench" where
  "step (EditorChange v) s =
     (let s' = handleEditorChange v s
      in if content s' = content s then s' else extractMermaidDiagrams s')"
| "step (TabChange t) s = s\<lparr>activeTab := t\<rparr>"
| "step (RenderSettled k out) s =
     (if k \<in> set (pending s) then settle out (s\<lparr>pending := removeAll k (pending s)\<rparr>) else s)"

fun run :: "event list \<Rightarrow> workbench \<Rightarrow> workbench" where
  "run [] s = s"
| "run (e # es) s = run es (step e s)"

subsection \<open>The three panes\<close>

text \<open>
  The preview is \<^verbatim>\<open>renderMarkdown(content)\<close> (\<open>None\<close>: \<^verbatim>\<open>replace\<close> on a value that is not a
  string throws); the diagram pane shows the markup, or a hint when it is empty; the
  outline pane is a literal list of links with their left padding.
\<close>

definition previewPane :: "workbench \<Rightarrow> jsstring option" where
  "previewPane s = (case content s of Str text \<Rightarrow> Some (renderMarkdown text) | _ \<Rightarrow> None)"

datatype diagram_view = DiagramMarkup jsstring | NoDiagramsFound

definition diagramPane :: "workbench \<Rightarrow> diagram_view" where
  "diagramPane s = (if diagramHtml s = [] then NoDiagramsFound else DiagramMarkup (diagramHtml s))"

definition outlinePane :: "workbench \<Rightarrow> (nat \<times> jsstring) list" where
  "outlinePane s =
     [(0, (js ''Solution Architecture Document'')),
      (4, (js ''Context'')),
      (4, (js ''Requirements'')),
      (4, (js ''Architecture Decision Record'')),
      (8, (js ''Status'')),
      (8, (js ''Context'')),
      (8, (js ''Decision'')),
      (8, (js ''Consequences'')),
      (4, (js ''System Architecture'')),
      (4, (js ''Implementation Plan''))]"

subsection \<open>Documents with diagram fences\<close>

text \<open>
  The two markers of the diagram expression, a fenced diagram block, and a document
  written as gaps and fenced blocks in turn with a closing rest; \<open>blocks\<close> lists the
  fenced regions of such a document with their offsets. The span of a match runs from
  its index to the end of the matched text.
\<close>

definition opener :: jsstring where
  "opener = (js ''```mermaid\<newline>'')"

definition closer :: jsstring where
  "closer = (js ''\<newline>```'')"

definition fenced :: "jsstring \<Rightarrow> jsstring" where
  "fenced body = opener @ body @ closer"

definition occurs :: "jsstring \<Rightarrow> jsstring \<Rightarrow> bool" where
  "occurs pat s = (first_occ pat s \<noteq> None)"

fun document :: "(jsstring \<times> jsstring) list \<Rightarrow> jsstring \<Rightarrow> jsstring" where
  "document [] rest = rest"
| "document ((gap, body) # fs) rest = gap @ fenced body @ document fs rest"

fun blocks :: "nat \<Rightarrow> (jsstring \<times> jsstring) list \<Rightarrow> rx_match list" where
  "blocks i [] = []"
| "blocks i ((gap, body) # fs) =
     \<lparr>index = i + length gap, whole = fenced body, captures = [body]\<rparr>
       # blocks (i + length gap + length (fenced body)) fs"

definition spanStart :: "rx_match \<Rightarrow> nat" where
  "spanStart m = index m"

definition spanEnd :: "rx_match \<Rightarrow> nat" where
  "spanEnd m = index m + length (whole m)"

subsection \<open>Fences and elements\<close>

text \<open>
  Names for the texts the theorems speak about: a fenced region as the match of the
  diagram expression determines it, a fenced code block, and the elements the replacement
  strings produce.
\<close>

definition fence_at :: "nat \<Rightarrow> jsstring \<Rightarrow> rx_match \<Rightarrow> bool" where
  "fence_at i s m =
     (i \<le> spanStart m \<and> spanEnd m \<le> i + length s
      \<and> captures m = [group1 m] \<and> whole m = fenced (group1 m)
      \<and> take (spanEnd m - spanStart m) (drop (spanStart m - i) s) = whole m)"

definition codeFence :: "jsstring \<Rightarrow> jsstring \<Rightarrow> jsstring" where
  "codeFence lang body = (js ''```'') @ lang @ (js ''\<newline>'') @ body @ (js ''\<newline>```'')"

definition codeElement :: "jsstring \<Rightarrow> jsstring" where
  \<open>codeElement body =
     (js ''<pre class="bg-muted p-4 rounded-lg overflow-x-auto"><code>'') @ body @ (js ''</code></pre>'')\<close>

definition placeholderElement :: jsstring where
  \<open>placeholderElement = (js ''<div class="diagram-placeholder">Diagram rendered above</div>'')\<close>

definition h1Element :: "jsstring \<Rightarrow> jsstring" where
  \<open>h1Element t = (js ''<h1 class="text-3xl font-bold mb-4">'') @ t @ (js ''</h1>'')\<close>

definition h2Element :: "jsstring \<Rightarrow> jsstring" where
  \<open>h2Element t = (js ''<h2 class="text-2xl font-semibold mb-3">'') @ t @ (js ''</h2>'')\<close>

definition h3Element :: "jsstring \<Rightarrow> jsstring" where
  \<open>h3Element t = (js ''<h3 class="text-xl font-medium mb-2">'') @ t @ (js ''</h3>'')\<close>

subsection \<open>Runs of settlements\<close>

text \<open>What a settled promise writes into the diagram markup, and a run of settlements.\<close>

fun markup :: "outcome \<Rightarrow> jsstring" where
  "markup (Resolved svg) = svg"
| "markup Rejected = errorHtml"

fun settlements :: "(nat \<times> outcome) list \<Rightarrow> event list" where
  "settlements [] = []"
| "settlements ((k, out) # kos) = RenderSettled k out # settlements kos"

section \<open>State lemmas\<close>

lemma content_extractMermaidDiagrams [simp]:
  "content (extractMermaidDiagrams s) = content s"
  by (simp add: extractMermaidDiagrams_def split: js_value.split list.split)

lemma js_or_empty_is_string: "\<exists>t. js_or v (Str []) = Str t"
  by (cases v) (simp_all add: js_or_def)

lemma errorHtml_nonempty: "errorHtml \<noteq> []"
  by (simp add: errorHtml_def)

lemma diagramHtml_settle: "diagramHtml (settle out s) = markup out"
  by (cases out) simp_all

lemma pending_settle: "pending (settle out s) = pending s"
  by (cases out) simp_all

lemma renderCalls_settle: "renderCalls (settle out s) = renderCalls s"
  by (cases out) simp_all

lemma step_settled_pending:
  "k \<in> set (pending s) \<Longrightarrow>
     diagramHtml (step (RenderSettled k out) s) = markup out
     \<and> pending (step (RenderSettled k out) s) = removeAll k (pending s)"
  by (simp add: diagramHtml_settle pending_settle)

lemma run_settlements_last:
  "kos \<noteq> [] \<Longrightarrow> distinct (map fst kos) \<Longrightarrow> set (map fst kos) \<subseteq> set (pending s) \<Longrightarrow>
     diagramHtml (run (settlements kos) s) = markup (snd (last kos))"
proof (induction kos arbitrary: s)
  case Nil
  then show ?case by simp
next
  case (Cons ko kos)
  obtain k out where ko: "ko = (k, out)" by (cases ko)
  have kp: "k \<in> set (pending s)" using Cons.prems(3) ko by simp
  show ?case
  proof (cases "kos = []")
    case True
    then show ?thesis using kp ko by (simp add: diagramHtml_settle)
  next
    case False
    have d: "distinct (map fst kos)" using Cons.prems(2) by simp
    have "set (map fst kos) \<subseteq> set (removeAll k (pending s))"
      using Cons.prems(2,3) ko by auto
    then have sub: "set (map fst kos) \<subseteq> set (pending (step (RenderSettled k out) s))"
      using step_settled_pending [OF kp] by simp
    have "diagramHtml (run (settlements kos) (step (RenderSettled k out) s))
            = markup (snd (last kos))"
      using Cons.IH [OF False d sub] .
    then show ?thesis using False ko by simp
  qed
qed

lemma renderCalls_edit:
  assumes "js_or v (Str []) = Str text" and "content s \<noteq> Str text"
  shows "renderCalls (step (EditorChange v) s)
           = renderCalls s @ map group1 (take 1 (mermaidMatches text))"
  using assms
  by (simp add: handleEditorChange_def Let_def extractMermaidDiagrams_def split: list.split)

lemma pending_edit:
  assumes "js_or v (Str []) = Str text" and "content s \<noteq> Str text"
      and "mermaidMatches text \<noteq> []"
  shows "pending (step (EditorChange v) s) = pending s @ [length (renderCalls s)]"
  using assms
  by (simp add: handleEditorChange_def Let_def extractMermaidDiagrams_def split: list.split)

lemma renderCalls_mounted:
  "renderCalls (mounted text) = map group1 (take 1 (mermaidMatches text))"
  by (simp add: mounted_def extractMermaidDiagrams_def split: list.split)

lemma content_step_string:
  assumes "\<exists>t. content s = Str t"
  shows "\<exists>t. content (step e s) = Str t"
proof (cases e)
  case (EditorChange v)
  then show ?thesis
    using js_or_empty_is_string [of v] by (auto simp: handleEditorChange_def Let_def)
next
  case (TabChange t)
  then show ?thesis using assms by simp
next
  case (RenderSettled k out)
  then show ?thesis using assms by (cases out) auto
qed

lemma content_run_string:
  "\<exists>t. content s = Str t \<Longrightarrow> \<exists>t. content (run es s) = Str t"
proof (induction es arbitrary: s)
  case Nil
  then show ?case by simp
next
  case (Cons e es)
  then show ?case using content_step_string [of s e] by simp
qed

section \<open>Matching the diagram expression\<close>

lemma closer_overlap:
  assumes "prefix closer (x @ closer @ r)" and "x \<noteq> []"
  shows "prefix closer x"
proof -
  from assms(1) have "prefix closer x \<or> (\<exists>us. closer = x @ us \<and> prefix us (closer @ r))"
    by (simp add: prefix_append)
  then show ?thesis
  proof
    assume "prefix closer x" then show ?thesis .
  next
    assume "\<exists>us. closer = x @ us \<and> prefix us (closer @ r)"
    then obtain us where u: "closer = x @ us" "prefix us (closer @ r)" by blast
    then show ?thesis using assms(2)
      by (auto simp: closer_def Cons_eq_append_conv)
  qed
qed

lemma opener_overlap:
  assumes "prefix opener (x @ opener @ r)" and "x \<noteq> []"
  shows "prefix opener x"
proof -
  from assms(1) have "prefix opener x \<or> (\<exists>us. opener = x @ us \<and> prefix us (opener @ r))"
    by (simp add: prefix_append)
  then show ?thesis
  proof
    assume "prefix opener x" then show ?thesis .
  next
    assume "\<exists>us. opener = x @ us \<and> prefix us (opener @ r)"
    then obtain us where u: "opener = x @ us" "prefix us (opener @ r)" by blast
    then show ?thesis using assms(2)
      by (auto simp: opener_def Cons_eq_append_conv)
  qed
qed

lemma first_occ_closer_body:
  "\<not> occurs closer b \<Longrightarrow> first_occ closer (b @ closer @ r) = Some (length b)"
proof (induction b)
  case Nil
  then show ?case by (simp add: closer_def)
next
  case (Cons c cs)
  from Cons.prems have n0: "\<not> prefix closer (c # cs)" and n: "\<not> occurs closer cs"
    by (auto simp: occurs_def split: if_splits)
  have "\<not> prefix closer ((c # cs) @ closer @ r)"
    using closer_overlap [of "c # cs" r] n0 by blast
  then show ?case using Cons.IH [OF n] by simp
qed

lemma mermaidRegex_opener:
  "mermaidRegex p s =
     (if prefix opener s
      then (case first_occ closer (drop 11 s) of
              None \<Rightarrow> None
            | Some k \<Rightarrow> Some (11 + k + 4, [take k (drop 11 s)]))
      else None)"
  by (simp add: mermaidRegex_def opener_def closer_def)

lemma mermaidRegex_no_opener: "\<not> prefix opener s \<Longrightarrow> mermaidRegex p s = None"
  by (simp add: mermaidRegex_opener)

lemma length_opener: "length opener = 11" by (simp add: opener_def)
lemma length_closer: "length closer = 4" by (simp add: closer_def)

lemma mermaidRegex_fenced:
  assumes "\<not> occurs closer b"
  shows "mermaidRegex p (fenced b @ r) = Some (Suc (14 + length b), [b])"
proof -
  have d: "drop 11 (fenced b @ r) = b @ closer @ r"
    by (simp add: fenced_def length_opener)
  have pre: "prefix opener (fenced b @ r)" by (simp add: fenced_def)
  show ?thesis
    unfolding mermaidRegex_opener d
    using pre first_occ_closer_body [OF assms] by simp
qed

lemma matchAllFrom_mermaid_prev:
  "matchAllFrom mermaidRegex i p s = matchAllFrom mermaidRegex i p' s"
  by (cases s) (simp_all add: mermaidRegex_def)

lemma matchAllFrom_skip_gap:
  "\<not> occurs opener g \<Longrightarrow>
     matchAllFrom mermaidRegex i p (g @ opener @ r)
       = matchAllFrom mermaidRegex (i + length g) p' (opener @ r)"
proof (induction g arbitrary: i p)
  case Nil
  then show ?case using matchAllFrom_mermaid_prev by simp
next
  case (Cons c cs)
  from Cons.prems have n0: "\<not> prefix opener (c # cs)" and n: "\<not> occurs opener cs"
    by (auto simp: occurs_def split: if_splits)
  have "\<not> prefix opener ((c # cs) @ opener @ r)"
    using opener_overlap [of "c # cs" r] n0 by blast
  then have "mermaidRegex p (c # cs @ opener @ r) = None"
    using mermaidRegex_no_opener by simp
  then show ?case using Cons.IH [OF n] by simp
qed

lemma matchAllFrom_no_opener:
  "\<not> occurs opener t \<Longrightarrow> matchAllFrom mermaidRegex i p t = []"
proof (induction t arbitrary: i p)
  case Nil
  then show ?case by (simp add: mermaidRegex_opener opener_def)
next
  case (Cons c cs)
  from Cons.prems have n0: "\<not> prefix opener (c # cs)" and n: "\<not> occurs opener cs"
    by (auto simp: occurs_def split: if_splits)
  show ?case using Cons.IH [OF n] mermaidRegex_no_opener [OF n0] by simp
qed

lemma matchAllFrom_hit:
  assumes "rx p s = Some (n, gs)" and "0 < n" and "n \<le> length s"
  shows "matchAllFrom rx i p s
    = \<lparr>index = i, whole = take n s, captures = gs\<rparr>
        # matchAllFrom rx (i + n) (Some (last (take n s))) (drop n s)"
proof -
  obtain c cs where s: "s = c # cs" using assms(2,3) by (cases s) auto
  obtain n' where n: "n = Suc n'" using assms(2) by (cases n) auto
  show ?thesis using assms(1) unfolding s n by simp
qed

lemma matchAllFrom_fenced:
  assumes "\<not> occurs closer b"
  shows "matchAllFrom mermaidRegex i p (fenced b @ r)
    = \<lparr>index = i, whole = fenced b, captures = [b]\<rparr>
        # matchAllFrom mermaidRegex (i + length (fenced b)) p' r"
proof -
  have l: "length (fenced b) = 15 + length b"
    by (simp add: fenced_def length_opener length_closer)
  have m: "mermaidRegex p (fenced b @ r) = Some (15 + length b, [b])"
    using mermaidRegex_fenced [OF assms, of p r] by simp
  have "matchAllFrom mermaidRegex i p (fenced b @ r)
      = \<lparr>index = i, whole = take (15 + length b) (fenced b @ r), captures = [b]\<rparr>
        # matchAllFrom mermaidRegex (i + (15 + length b))
            (Some (last (take (15 + length b) (fenced b @ r)))) (drop (15 + length b) (fenced b @ r))"
    using matchAllFrom_hit [of mermaidRegex p "fenced b @ r" "15 + length b" "[b]" i] m l
    by simp
  then show ?thesis
    using l matchAllFrom_mermaid_prev by simp
qed

lemma matchAllFrom_document:
  "list_all (\<lambda>(gap, body). \<not> occurs opener gap \<and> \<not> occurs closer body) fs \<Longrightarrow>
   \<not> occurs opener rest \<Longrightarrow>
     matchAllFrom mermaidRegex i p (document fs rest) = blocks i fs"
proof (induction fs arbitrary: i p)
  case Nil
  then show ?case using matchAllFrom_no_opener by simp
next
  case (Cons f fs)
  obtain g b where f: "f = (g, b)" by (cases f)
  from Cons.prems f have g: "\<not> occurs opener g" and b: "\<not> occurs closer b"
    and rest: "list_all (\<lambda>(gap, body). \<not> occurs opener gap \<and> \<not> occurs closer body) fs"
    by simp_all
  have "matchAllFrom mermaidRegex i p (g @ fenced b @ document fs rest)
      = matchAllFrom mermaidRegex (i + length g) p (fenced b @ document fs rest)"
    using matchAllFrom_skip_gap [OF g, of i p "b @ closer @ document fs rest" p]
    by (simp add: fenced_def)
  also have "\<dots> = \<lparr>index = i + length g, whole = fenced b, captures = [b]\<rparr>
        # matchAllFrom mermaidRegex (i + length g + length (fenced b)) p (document fs rest)"
    using matchAllFrom_fenced [OF b] by simp
  finally show ?case using Cons.IH [OF rest Cons.prems(2)] f by simp
qed

lemma length_blocks: "length (blocks i fs) = length fs"
  by (induction fs arbitrary: i) auto

lemma group1_blocks: "map group1 (blocks i fs) = map snd fs"
  by (induction fs arbitrary: i) auto

lemma first_occ_Some_prefix:
  "first_occ pat s = Some k \<Longrightarrow> prefix pat (drop k s) \<and> k \<le> length s"
proof (induction s arbitrary: k)
  case Nil
  then show ?case by (auto split: if_splits)
next
  case (Cons c cs)
  show ?case
  proof (cases "prefix pat (c # cs)")
    case True
    then show ?thesis using Cons.prems by simp
  next
    case False
    then obtain k' where "first_occ pat cs = Some k'" and "k = Suc k'"
      using Cons.prems by auto
    then show ?thesis using Cons.IH [of k'] by simp
  qed
qed

lemma mermaidRegex_Some:
  assumes "mermaidRegex p s = Some (n, gs)"
  shows "\<exists>body. gs = [body] \<and> n = length (fenced body) \<and> take n s = fenced body
           \<and> n \<le> length s \<and> 0 < n"
proof -
  from assms have po: "prefix opener s"
    by (auto simp: mermaidRegex_opener split: if_splits)
  then obtain s' where s: "s = opener @ s'" by (auto simp: prefix_def)
  have d: "drop 11 s = s'" by (simp add: s length_opener)
  from assms po obtain k where k: "first_occ closer s' = Some k"
    and n: "n = 11 + k + 4" and gs: "gs = [take k s']"
    by (auto simp: mermaidRegex_opener d split: option.splits)
  from first_occ_Some_prefix [OF k] have pc: "prefix closer (drop k s')" and kl: "k \<le> length s'"
    by simp_all
  then obtain r where r: "drop k s' = closer @ r" by (auto simp: prefix_def)
  have s'': "s' = take k s' @ closer @ r"
    using r by (metis append_take_drop_id)
  have lt: "length (take k s') = k" using kl by simp
  have "s = fenced (take k s') @ r"
    using s s'' by (simp add: fenced_def)
  moreover have "length (fenced (take k s')) = n"
    using n lt by (simp add: fenced_def length_opener length_closer)
  ultimately have "take n s = fenced (take k s')" and "n \<le> length s"
    by (metis append_eq_conv_conj, metis length_append le_add1)
  then show ?thesis using gs n \<open>length (fenced (take k s')) = n\<close> by auto
qed

lemma fence_at_shift:
  assumes "fence_at (i + n) (drop n s) m" and "n \<le> length s"
  shows "fence_at i s m"
proof -
  from assms(1) have ge: "i + n \<le> spanStart m" by (simp add: fence_at_def)
  then have eq: "spanStart m - (i + n) + n = spanStart m - i" by simp
  have dd: "drop (spanStart m - (i + n)) (drop n s) = drop (spanStart m - i) s"
    by (simp add: eq)
  show ?thesis
    using assms ge unfolding fence_at_def dd by simp
qed

lemma matchAllFrom_mermaid_any_text:
  "list_all (fence_at i s) (matchAllFrom mermaidRegex i p s)
   \<and> sorted_wrt (\<lambda>a b. spanEnd a \<le> spanStart b) (matchAllFrom mermaidRegex i p s)"
proof (induction s arbitrary: i p rule: length_induct)
  case (1 s)
  show ?case
  proof (cases "mermaidRegex p s")
    case None
    show ?thesis
    proof (cases s)
      case Nil
      then show ?thesis using None by simp
    next
      case (Cons c cs)
      have ih: "list_all (fence_at (Suc i) cs) (matchAllFrom mermaidRegex (Suc i) (Some c) cs)
        \<and> sorted_wrt (\<lambda>a b. spanEnd a \<le> spanStart b) (matchAllFrom mermaidRegex (Suc i) (Some c) cs)"
        using 1 Cons by simp
      have "fence_at i s m" if "fence_at (Suc i) cs m" for m
        using fence_at_shift [of i 1 s m] that Cons by simp
      then show ?thesis using ih None Cons by (auto simp: list_all_iff)
    qed
  next
    case (Some r)
    obtain n gs where r: "r = (n, gs)" by (cases r)
    from mermaidRegex_Some [OF Some [unfolded r]] obtain body where
      b: "gs = [body]" "n = length (fenced body)" "take n s = fenced body" "n \<le> length s" "0 < n"
      by blast
    let ?m = "\<lparr>index = i, whole = take n s, captures = gs\<rparr>"
    let ?rest = "matchAllFrom mermaidRegex (i + n) (Some (last (take n s))) (drop n s)"
    have e: "matchAllFrom mermaidRegex i p s = ?m # ?rest"
      using matchAllFrom_hit [of mermaidRegex p s n gs i] Some r b by simp
    have "length (drop n s) < length s" using b(4,5) by simp
    then have ih: "list_all (fence_at (i + n) (drop n s)) ?rest
        \<and> sorted_wrt (\<lambda>a b. spanEnd a \<le> spanStart b) ?rest"
      using 1 by blast
    have m: "fence_at i s ?m"
      using b by (simp add: fence_at_def spanStart_def spanEnd_def)
    have rest: "fence_at i s m'" if "m' \<in> set ?rest" for m'
      using ih that fence_at_shift [OF _ b(4)] by (auto simp: list_all_iff)
    have "spanEnd ?m \<le> spanStart m'" if "m' \<in> set ?rest" for m'
      using ih that b by (auto simp: list_all_iff fence_at_def spanEnd_def)
    then show ?thesis unfolding e using m rest ih by (auto simp: list_all_iff)
  qed
qed

section \<open>Global replacement\<close>

lemma gsub_hit:
  assumes "rx p s = Some (n, gs)" and "0 < n" and "n \<le> length s"
  shows "gsub rx repl p s
    = expand repl gs @ gsub rx repl (Some (last (take n s))) (drop n s)"
proof -
  obtain c cs where s: "s = c # cs" using assms(2,3) by (cases s) auto
  obtain n' where n: "n = Suc n'" using assms(2) by (cases n) auto
  show ?thesis using assms(1) unfolding s n by simp
qed

lemma gsub_hit_all:
  assumes "rx p s = Some (length s, gs)" and "s \<noteq> []" and "\<And>q. rx q [] = None"
  shows "gsub rx repl p s = expand repl gs"
  using gsub_hit [of rx p s "length s" gs repl] assms by simp

lemma gsub_id:
  assumes "\<And>q t. suffix t s \<Longrightarrow> rx q t = None"
  shows "gsub rx repl p s = s"
  using assms
proof (induction s arbitrary: p)
  case Nil
  then show ?case by simp
next
  case (Cons c cs)
  have "rx p (c # cs) = None" using Cons.prems by simp
  moreover have "gsub rx repl (Some c) cs = cs"
    using Cons.IH Cons.prems by (simp add: suffix_Cons)
  ultimately show ?case by simp
qed

lemma gsub_skip:
  assumes "\<And>q t. suffix t g \<Longrightarrow> t \<noteq> [] \<Longrightarrow> rx q (t @ r) = None"
  shows "gsub rx repl p (g @ r) = g @ gsub rx repl (if g = [] then p else Some (last g)) r"
  using assms
proof (induction g arbitrary: p)
  case Nil
  then show ?case by simp
next
  case (Cons c cs)
  have "rx p ((c # cs) @ r) = None" using Cons.prems [of "c # cs" p] by simp
  moreover have "gsub rx repl (Some c) (cs @ r)
      = cs @ gsub rx repl (if cs = [] then Some c else Some (last cs)) r"
    using Cons.IH [of "Some c"] Cons.prems by (simp add: suffix_Cons)
  ultimately show ?case by simp
qed

lemma gsub_prev:
  assumes "\<And>t. rx p t = rx q t"
  shows "gsub rx repl p s = gsub rx repl q s"
  by (cases s) (simp_all add: assms)

lemma prefix_hd_in_set: "prefix (c # d) t \<Longrightarrow> c \<in> set t"
  by (auto simp: prefix_def)

lemma suffix_set: "suffix t s \<Longrightarrow> c \<notin> set s \<Longrightarrow> c \<notin> set t"
  using set_mono_suffix by fastforce

lemma suffix_hd_set: "suffix t g \<Longrightarrow> t \<noteq> [] \<Longrightarrow> c \<notin> set g \<Longrightarrow> \<not> prefix (c # d) (t @ r)"
  by (cases t) (auto dest: suffix_set)

text \<open>Each expression starts with a fixed character.\<close>

lemma emphasisRegex_first:
  "\<not> prefix d t \<Longrightarrow> emphasisRegex d q t = None"
  by (simp add: emphasisRegex_def)

lemma codeRegex_first:
  "\<not> prefix (js ''```'') t \<Longrightarrow> codeRegex q t = None"
  by (simp add: codeRegex_def)

lemma newlineRegex_first:
  "\<not> prefix (js ''\<newline>'') t \<Longrightarrow> newlineRegex q t = None"
  by (simp add: newlineRegex_def)

lemma mermaidRegex_first:
  "\<not> prefix (js ''```'') t \<Longrightarrow> mermaidRegex q t = None"
  by (auto simp: mermaidRegex_def prefix_def)

lemma dot_iff:
  "list_all dot s \<longleftrightarrow> LF \<notin> set s \<and> CR \<notin> set s \<and> LS \<notin> set s \<and> PS \<notin> set s"
  by (induction s) (auto simp: dot_def lineTerminator_def)

lemma takeWhile_dot_line:
  "list_all dot l \<Longrightarrow> takeWhile dot (l @ LF # r) = l"
  by (induction l) (simp_all add: dot_def lineTerminator_def)

lemma takeWhile_dot_all: "list_all dot l \<Longrightarrow> takeWhile dot l = l"
  by (induction l) simp_all

subsection \<open>Passes that leave a text as it is\<close>

lemma replace_id_without_first_char:
  assumes "\<And>q t. \<not> prefix (c # d) t \<Longrightarrow> rx q t = None" and "c \<notin> set s"
  shows "replace rx repl s = s"
  unfolding replace_def
proof (rule gsub_id)
  fix q t assume "suffix t s"
  then have "c \<notin> set t" using assms(2) by (rule suffix_set)
  then have "\<not> prefix (c # d) t" using prefix_hd_in_set by fast
  then show "rx q t = None" by (rule assms(1))
qed

lemma emphasis_id_without_star:
  "STAR \<notin> set s \<Longrightarrow> replace (emphasisRegex (STAR # d)) repl s = s"
  using replace_id_without_first_char [of "STAR" d "emphasisRegex (STAR # d)" s repl]
    emphasisRegex_first by blast

lemma code_id_without_backtick:
  "BT \<notin> set s \<Longrightarrow> replace codeRegex repl s = s"
  using replace_id_without_first_char [of "BT" "(js ''``'')" codeRegex s repl]
    codeRegex_first by simp

lemma newline_id_without_newline:
  "LF \<notin> set s \<Longrightarrow> replace newlineRegex repl s = s"
  using replace_id_without_first_char [of "LF" "[]" newlineRegex s repl]
    newlineRegex_first by simp

lemma mermaidRegex_needs_newline:
  "LF \<notin> set t \<Longrightarrow> mermaidRegex q t = None"
proof (rule ccontr)
  assume n: "LF \<notin> set t" and "mermaidRegex q t \<noteq> None"
  then have "prefix (js ''```mermaid\<newline>'') t" by (auto simp: mermaidRegex_def split: if_splits)
  then have "set (js ''```mermaid\<newline>'') \<subseteq> set t" by (rule set_mono_prefix)
  then show False using n by simp
qed

lemma codeRegex_needs_newline:
  "LF \<notin> set t \<Longrightarrow> codeRegex q t = None"
proof (rule ccontr)
  assume n: "LF \<notin> set t" and "codeRegex q t \<noteq> None"
  then obtain k where "prefix (js ''\<newline>'') (drop k t)"
    by (auto simp: codeRegex_def Let_def split: if_splits)
  then have "LF \<in> set (drop k t)" using prefix_hd_in_set [of LF "[]"] by simp
  then show False using n by (auto dest: in_set_dropD)
qed

lemma fences_id_on_one_line:
  assumes "LF \<notin> set s"
  shows "replace mermaidRegex repl s = s" and "replace codeRegex repl' s = s"
proof -
  have n: "LF \<notin> set t" if "suffix t s" for t
    using that assms by (rule suffix_set)
  show "replace mermaidRegex repl s = s"
    unfolding replace_def by (rule gsub_id) (simp add: n mermaidRegex_needs_newline)
  show "replace codeRegex repl' s = s"
    unfolding replace_def by (rule gsub_id) (simp add: n codeRegex_needs_newline)
qed

subsection \<open>Heading rules on one line\<close>

lemma heading_inside_line:
  "list_all dot s \<Longrightarrow> \<not> lineStart p \<Longrightarrow> gsub (headingRegex m) repl p s = s"
proof (induction s arbitrary: p)
  case Nil
  then show ?case by (simp add: headingRegex_def)
next
  case (Cons c cs)
  have "\<not> lineStart (Some c)" using Cons.prems(1) by (simp add: dot_def)
  then show ?case using Cons by (simp add: headingRegex_def)
qed

lemma heading_other_line:
  assumes "list_all dot s" and "\<not> prefix m s"
  shows "replace (headingRegex m) repl s = s"
proof (cases s)
  case Nil
  then show ?thesis using assms(2) by (simp add: replace_def headingRegex_def)
next
  case (Cons c cs)
  have "\<not> lineStart (Some c)" using assms(1) Cons by (simp add: dot_def)
  then have "gsub (headingRegex m) repl (Some c) cs = cs"
    using heading_inside_line assms(1) Cons by simp
  then show ?thesis using assms(2) Cons by (simp add: replace_def headingRegex_def)
qed

lemma heading_this_line:
  assumes "list_all dot t" and "m \<noteq> []"
  shows "replace (headingRegex m) [Lit a, G1, Lit b] (m @ t) = a @ t @ b"
proof -
  have h: "headingRegex m None (m @ t) = Some (length (m @ t), [t])"
    using assms(1) by (simp add: headingRegex_def takeWhile_dot_all)
  have "gsub (headingRegex m) [Lit a, G1, Lit b] None (m @ t) = expand [Lit a, G1, Lit b] [t]"
    using h assms(2) by (intro gsub_hit_all) (simp_all add: headingRegex_def)
  then show ?thesis by (simp add: replace_def)
qed

lemma last_occ_bold_end: "last_occ (js ''**'') (b @ (js ''**'')) = Some (length b)"
  by (induction b) simp_all

lemma not_mermaid_tag:
  assumes "list_all dot lang" and "lang \<noteq> (js ''mermaid'')"
  shows "\<not> prefix (js ''mermaid\<newline>'') (lang @ LF # r)"
proof
  assume "prefix (js ''mermaid\<newline>'') (lang @ LF # r)"
  then have "prefix (js ''mermaid\<newline>'') lang
      \<or> (\<exists>us. (js ''mermaid\<newline>'') = lang @ us \<and> prefix us (LF # r))"
    by (simp add: prefix_append)
  then show False
  proof
    assume "prefix (js ''mermaid\<newline>'') lang"
    then have "set (js ''mermaid\<newline>'') \<subseteq> set lang" by (rule set_mono_prefix)
    then show False using assms(1) by (simp add: dot_iff)
  next
    assume "\<exists>us. (js ''mermaid\<newline>'') = lang @ us \<and> prefix us (LF # r)"
    then obtain us where u: "(js ''mermaid\<newline>'') = lang @ us" "prefix us (LF # r)" by blast
    then show False using assms
      by (auto simp: Cons_eq_append_conv dot_def lineTerminator_def)
  qed
qed

lemma codeRegex_fence:
  assumes "list_all dot lang" and "\<not> occurs closer body"
  shows "codeRegex p ((js ''```'') @ lang @ LF # body @ closer @ r)
    = Some (length lang + length body + 8, [lang, body])"
proof -
  let ?s = "(js ''```'') @ lang @ LF # body @ closer @ r"
  have p3: "prefix (js ''```'') ?s" by simp
  have d3: "drop 3 ?s = lang @ LF # body @ closer @ r" by simp
  have tw: "takeWhile dot (drop 3 ?s) = lang"
    unfolding d3 using assms(1) by (rule takeWhile_dot_line)
  have "drop (3 + length lang) ?s = drop (length lang) (drop 3 ?s)"
    by (simp only: drop_drop add.commute)
  then have af: "drop (3 + length lang) ?s = LF # body @ closer @ r"
    unfolding d3 by simp
  have fo: "first_occ (js ''\<newline>```'') (body @ closer @ r) = Some (length body)"
    using first_occ_closer_body [OF assms(2), of r] by (simp add: closer_def)
  show ?thesis
    unfolding codeRegex_def Let_def tw af using p3 fo by simp
qed

lemma emphasis_rules_id_without_star:
  assumes "STAR \<notin> set s"
  shows "replace (emphasisRegex (js ''*'')) em_repl (replace (emphasisRegex (js ''**'')) strong_repl s) = s"
  using emphasis_id_without_star [OF assms] by simp

subsection \<open>Rules across a line feed\<close>

lemma takeWhile_dot_before_newline: "takeWhile dot (u @ LF # b) = takeWhile dot u"
  by (induction u) (simp_all add: dot_def lineTerminator_def)

lemma prefix_before_newline:
  assumes "LF \<notin> set m"
  shows "prefix m (t @ LF # b) \<longleftrightarrow> prefix m t"
proof
  assume "prefix m (t @ LF # b)"
  then have "prefix m t \<or> (\<exists>us. m = t @ us \<and> prefix us (LF # b))"
    by (simp add: prefix_append)
  then show "prefix m t"
  proof
    assume "prefix m t" then show ?thesis .
  next
    assume "\<exists>us. m = t @ us \<and> prefix us (LF # b)"
    then obtain us where u: "m = t @ us" "prefix us (LF # b)" by blast
    show ?thesis
    proof (cases us)
      case Nil
      then show ?thesis using u by simp
    next
      case (Cons x xs)
      then have "x = LF" using u(2) by simp
      then show ?thesis using assms u(1) Cons by simp
    qed
  qed
next
  assume "prefix m t" then show "prefix m (t @ LF # b)" by (rule prefix_prefix)
qed

lemma drop_prefix_append: "prefix m t \<Longrightarrow> drop (length m) (t @ r) = drop (length m) t @ r"
  by (auto simp: prefix_def)

lemma headingRegex_local:
  assumes "LF \<notin> set m"
  shows "headingRegex m q (t @ LF # b) = headingRegex m q t"
proof (cases "prefix m t")
  case True
  have d: "drop (length m) (t @ LF # b) = drop (length m) t @ LF # b"
    using True by (rule drop_prefix_append)
  show ?thesis
    unfolding headingRegex_def d takeWhile_dot_before_newline
    using prefix_before_newline [OF assms, of t b] by simp
next
  case False
  then show ?thesis
    using prefix_before_newline [OF assms, of t b] by (simp add: headingRegex_def)
qed

lemma emphasisRegex_local:
  assumes "LF \<notin> set d"
  shows "emphasisRegex d q (t @ LF # b) = emphasisRegex d q t"
proof (cases "prefix d t")
  case True
  have d: "drop (length d) (t @ LF # b) = drop (length d) t @ LF # b"
    using True by (rule drop_prefix_append)
  show ?thesis
    unfolding emphasisRegex_def d takeWhile_dot_before_newline
    using prefix_before_newline [OF assms, of t b] by simp
next
  case False
  then show ?thesis
    using prefix_before_newline [OF assms, of t b] by (simp add: emphasisRegex_def)
qed

lemma last_occ_bound: "last_occ d l = Some k \<Longrightarrow> k + length d \<le> length l"
proof (induction l arbitrary: k)
  case Nil
  then show ?case by (auto split: if_splits)
next
  case (Cons c cs)
  show ?case
  proof (cases "last_occ d cs")
    case None
    then have "prefix d (c # cs)" and "k = 0" using Cons.prems by (auto split: if_splits)
    then show ?thesis using prefix_length_le by fastforce
  next
    case (Some k')
    then have "k = Suc k'" using Cons.prems by simp
    then show ?thesis using Cons.IH [OF Some] by simp
  qed
qed

lemma length_takeWhile_drop: "n + length (takeWhile P (drop n t)) \<le> length t" if "n \<le> length t"
proof -
  have "length (takeWhile P (drop n t)) \<le> length (drop n t)" by (rule length_takeWhile_le)
  then show ?thesis using that by simp
qed

lemma headingRegex_Some:
  assumes "headingRegex m q t = Some (n, gs)" and "m \<noteq> []"
  shows "0 < n \<and> n \<le> length t \<and> (\<exists>g. gs = [g] \<and> set g \<subseteq> set t)"
proof -
  from assms(1) have p: "prefix m t" and n: "n = length m + length (takeWhile dot (drop (length m) t))"
    and gs: "gs = [takeWhile dot (drop (length m) t)]"
    by (auto simp: headingRegex_def Let_def split: if_splits)
  have "length m \<le> length t" using p by (rule prefix_length_le)
  then have "n \<le> length t" unfolding n by (rule length_takeWhile_drop)
  moreover have "set (takeWhile dot (drop (length m) t)) \<subseteq> set t"
    by (auto dest!: set_takeWhileD in_set_dropD)
  ultimately show ?thesis using n gs assms(2) by simp
qed

lemma emphasisRegex_Some:
  assumes "emphasisRegex d q t = Some (n, gs)" and "d \<noteq> []"
  shows "0 < n \<and> n \<le> length t \<and> (\<exists>g. gs = [g] \<and> set g \<subseteq> set t)"
proof -
  let ?line = "takeWhile dot (drop (length d) t)"
  from assms(1) obtain k where p: "prefix d t" and k: "last_occ d ?line = Some k"
    and n: "n = length d + k + length d" and gs: "gs = [take k ?line]"
    by (auto simp: emphasisRegex_def Let_def split: if_splits option.splits)
  have "length d \<le> length t" using p by (rule prefix_length_le)
  then have "length d + length ?line \<le> length t" by (rule length_takeWhile_drop)
  then have "n \<le> length t" using last_occ_bound [OF k] n by simp
  moreover have "set (take k ?line) \<subseteq> set t"
    by (auto dest!: in_set_takeD set_takeWhileD in_set_dropD)
  ultimately show ?thesis using n gs assms(2) by simp
qed

lemma gsub_line_local:
  assumes loc: "\<And>q t. rx q (t @ LF # b) = rx q t"
      and bound: "\<And>q t n gs. rx q t = Some (n, gs) \<Longrightarrow> 0 < n \<and> n \<le> length t"
  shows "gsub rx repl p (a @ LF # b)
    = gsub rx repl p a @ LF # gsub rx repl (Some (LF)) b"
proof (induction a arbitrary: p rule: length_induct)
  case (1 a)
  have e: "rx p (a @ LF # b) = rx p a" by (rule loc)
  show ?case
  proof (cases "rx p a")
    case None
    show ?thesis
    proof (cases a)
      case Nil
      then show ?thesis using None e by simp
    next
      case (Cons c cs)
      then show ?thesis using None e 1 by simp
    qed
  next
    case (Some r)
    obtain n gs where r: "r = (n, gs)" by (cases r)
    have n: "0 < n" "n \<le> length a" using bound Some r by blast+
    have "length (drop n a) < length a" using n by simp
    then have ih: "gsub rx repl q (drop n a @ LF # b)
      = gsub rx repl q (drop n a) @ LF # gsub rx repl (Some (LF)) b" for q
      using 1 by blast
    have "gsub rx repl p (a @ LF # b)
      = expand repl gs @ gsub rx repl (Some (last (take n (a @ LF # b))))
          (drop n (a @ LF # b))"
      using e Some r n by (intro gsub_hit) simp_all
    moreover have "gsub rx repl p a
      = expand repl gs @ gsub rx repl (Some (last (take n a))) (drop n a)"
      using Some r n by (intro gsub_hit) simp_all
    ultimately show ?thesis using n ih by simp
  qed
qed

lemma heading_across_newline:
  assumes "LF \<notin> set m" and "m \<noteq> []"
  shows "replace (headingRegex m) repl (a @ LF # b)
    = replace (headingRegex m) repl a @ LF # replace (headingRegex m) repl b"
proof -
  have "gsub (headingRegex m) repl (Some (LF)) b = gsub (headingRegex m) repl None b"
    by (rule gsub_prev) (simp add: headingRegex_def lineTerminator_def)
  moreover have "gsub (headingRegex m) repl None (a @ LF # b)
    = gsub (headingRegex m) repl None a @ LF # gsub (headingRegex m) repl (Some (LF)) b"
  proof (rule gsub_line_local)
    show "headingRegex m q (t @ LF # b) = headingRegex m q t" for q t
      by (rule headingRegex_local [OF assms(1)])
    show "0 < n \<and> n \<le> length t" if "headingRegex m q t = Some (n, gs)" for q t n gs
      using headingRegex_Some [OF that assms(2)] by blast
  qed
  ultimately show ?thesis by (simp add: replace_def)
qed

lemma emphasis_across_newline:
  assumes "LF \<notin> set d" and "d \<noteq> []"
  shows "replace (emphasisRegex d) repl (a @ LF # b)
    = replace (emphasisRegex d) repl a @ LF # replace (emphasisRegex d) repl b"
proof -
  have "gsub (emphasisRegex d) repl (Some (LF)) b = gsub (emphasisRegex d) repl None b"
    by (rule gsub_prev) (simp add: emphasisRegex_def)
  moreover have "gsub (emphasisRegex d) repl None (a @ LF # b)
    = gsub (emphasisRegex d) repl None a @ LF # gsub (emphasisRegex d) repl (Some (LF)) b"
  proof (rule gsub_line_local)
    show "emphasisRegex d q (t @ LF # b) = emphasisRegex d q t" for q t
      by (rule emphasisRegex_local [OF assms(1)])
    show "0 < n \<and> n \<le> length t" if "emphasisRegex d q t = Some (n, gs)" for q t n gs
      using emphasisRegex_Some [OF that assms(2)] by blast
  qed
  ultimately show ?thesis by (simp add: replace_def)
qed

lemma fence_across_newline:
  assumes first: "\<And>q t. \<not> prefix (js ''```'') t \<Longrightarrow> rx q t = None"
      and prev: "\<And>q q' t. rx q t = rx q' t"
      and "BT \<notin> set a"
  shows "replace rx repl (a @ LF # b) = replace rx repl a @ LF # replace rx repl b"
proof -
  have bt: "BT \<notin> set (a @ [LF])" using assms(3) by simp
  have "gsub rx repl None ((a @ [LF]) @ b)
    = (a @ [LF]) @ gsub rx repl (if a @ [LF] = [] then None else Some (last (a @ [LF]))) b"
  proof (rule gsub_skip)
    fix q t assume "suffix t (a @ [LF])" and "t \<noteq> []"
    then have "\<not> prefix (js ''```'') (t @ b)" using suffix_hd_set [OF _ _ bt] by simp
    then show "rx q (t @ b) = None" by (rule first)
  qed
  moreover have "gsub rx repl (Some (LF)) b = gsub rx repl None b"
    by (rule gsub_prev) (rule prev)
  moreover have "replace rx repl a = a"
    using replace_id_without_first_char [of "BT" "(js ''``'')" rx a repl] first assms(3)
    by simp
  ultimately show ?thesis by (simp add: replace_def)
qed

lemma code_across_newline:
  "BT \<notin> set a \<Longrightarrow>
     replace codeRegex repl (a @ LF # b)
       = replace codeRegex repl a @ LF # replace codeRegex repl b"
  by (rule fence_across_newline) (simp_all add: codeRegex_first, simp add: codeRegex_def)

lemma newlineRegex_Nil: "newlineRegex p [] = None"
  by (simp add: newlineRegex_def)

lemma newlineRegex_Cons:
  "newlineRegex p (c # t) = (if c = LF then Some (Suc 0, []) else None)"
  by (simp add: newlineRegex_def)

lemma gsub_newline_append:
  "gsub newlineRegex br_repl p (x @ y)
     = gsub newlineRegex br_repl p x @ gsub newlineRegex br_repl q y"
proof (induction x arbitrary: p)
  case Nil
  have "gsub newlineRegex br_repl p y = gsub newlineRegex br_repl q y"
    by (rule gsub_prev) (simp add: newlineRegex_def)
  then show ?case by (simp add: newlineRegex_Nil)
next
  case (Cons c cs)
  then show ?case by (simp add: newlineRegex_Cons)
qed

lemma newline_across_newline:
  "replace newlineRegex br_repl (a @ LF # b)
     = replace newlineRegex br_repl a @ (js ''<br>'') @ replace newlineRegex br_repl b"
proof -
  have "gsub newlineRegex br_repl q (LF # b) = (js ''<br>'') @ gsub newlineRegex br_repl None b" for q
  proof -
    have "gsub newlineRegex br_repl (Some (LF)) b = gsub newlineRegex br_repl None b"
      by (rule gsub_prev) (simp add: newlineRegex_def)
    then show ?thesis by (simp add: newlineRegex_Cons br_repl_def)
  qed
  then show ?thesis
    unfolding replace_def using gsub_newline_append [of None a "LF # b" None] by simp
qed

lemma gsub_keeps_out:
  assumes caps: "\<And>q t n gs. rx q t = Some (n, gs) \<Longrightarrow>
                   0 < n \<and> n \<le> length t \<and> (\<exists>g. gs = [g] \<and> set g \<subseteq> set t)"
      and "c \<notin> set x" and "c \<notin> set y" and "c \<notin> set s"
  shows "c \<notin> set (gsub rx [Lit x, G1, Lit y] p s)"
  using assms(4)
proof (induction s arbitrary: p rule: length_induct)
  case (1 s)
  show ?case
  proof (cases "rx p s")
    case None
    show ?thesis
    proof (cases s)
      case Nil
      then show ?thesis using None by simp
    next
      case (Cons d ds)
      then show ?thesis using None 1 by simp
    qed
  next
    case (Some r)
    obtain n gs where r: "r = (n, gs)" by (cases r)
    from caps [OF Some [unfolded r]] obtain g where
      n: "0 < n" "n \<le> length s" and g: "gs = [g]" "set g \<subseteq> set s" by blast
    have "length (drop n s) < length s" using n by simp
    moreover have "c \<notin> set (drop n s)" using "1.prems" by (auto dest: in_set_dropD)
    ultimately have ih: "c \<notin> set (gsub rx [Lit x, G1, Lit y] q (drop n s))" for q
      using 1 by blast
    have "gsub rx [Lit x, G1, Lit y] p s
      = expand [Lit x, G1, Lit y] gs
          @ gsub rx [Lit x, G1, Lit y] (Some (last (take n s))) (drop n s)"
      using Some r n by (intro gsub_hit) simp_all
    then show ?thesis using ih g assms(2,3) "1.prems" by auto
  qed
qed

section \<open>The rules on lines and fences\<close>

subsection \<open>Emphasis inside a line\<close>

lemma renderMarkdown_rules:
  "renderMarkdown text =
     replace newlineRegex br_repl
       (replace codeRegex pre_repl
         (replace mermaidRegex placeholder_repl (emphasisRules (headingRules text))))"
  by (simp add: renderMarkdown_def emphasisRules_def headingRules_def)

lemma prefix_append_disjoint:
  assumes "set d \<inter> set b = {}"
  shows "prefix d (x @ b) \<longleftrightarrow> prefix d x"
proof
  assume "prefix d (x @ b)"
  then have "prefix d x \<or> (\<exists>us. d = x @ us \<and> prefix us b)"
    by (simp add: prefix_append)
  then show "prefix d x"
  proof
    assume "prefix d x" then show ?thesis .
  next
    assume "\<exists>us. d = x @ us \<and> prefix us b"
    then obtain us where u: "d = x @ us" "prefix us b" by blast
    show ?thesis
    proof (cases us)
      case Nil
      then show ?thesis using u by simp
    next
      case (Cons y ys)
      then have "y \<in> set b" using u(2) by (auto simp: prefix_def)
      moreover have "y \<in> set d" using u(1) Cons by simp
      ultimately show ?thesis using assms by blast
    qed
  qed
next
  assume "prefix d x" then show "prefix d (x @ b)" by (rule prefix_prefix)
qed

lemma last_occ_append_disjoint:
  assumes "d \<noteq> []" and "set d \<inter> set b = {}"
  shows "last_occ d (l @ b) = last_occ d l"
proof (induction l)
  case Nil
  have "last_occ d b' = None" if "set b' \<subseteq> set b" for b'
    using that
  proof (induction b')
    case Nil
    then show ?case using assms(1) by simp
  next
    case (Cons y ys)
    have "\<not> prefix d (y # ys)"
    proof
      assume "prefix d (y # ys)"
      then have "set d \<subseteq> set (y # ys)" by (rule set_mono_prefix)
      then show False using Cons.prems assms by (cases d) auto
    qed
    then show ?case using Cons by simp
  qed
  then show ?case using assms(1) by simp
next
  case (Cons c cs)
  have "prefix d ((c # cs) @ b) \<longleftrightarrow> prefix d (c # cs)"
    using assms(2) by (rule prefix_append_disjoint)
  then show ?case using Cons by simp
qed

lemma emphasisRegex_before:
  assumes "d \<noteq> []" and "set d \<inter> set b = {}"
  shows "emphasisRegex d q (t @ b) = emphasisRegex d q t"
proof (cases "prefix d t")
  case True
  let ?r = "drop (length d) t"
  have dr: "drop (length d) (t @ b) = ?r @ b"
    using True by (rule drop_prefix_append)
  obtain b' where tw: "takeWhile dot (?r @ b) = takeWhile dot ?r @ b'" and b': "set b' \<subseteq> set b"
  proof (cases "\<forall>x \<in> set ?r. dot x")
    case True
    then have "takeWhile dot (?r @ b) = takeWhile dot ?r @ takeWhile dot b"
      by (simp add: takeWhile_append2 takeWhile_eq_all_conv [THEN iffD2])
    moreover have "set (takeWhile dot b) \<subseteq> set b" by (auto dest: set_takeWhileD)
    ultimately show ?thesis using that by blast
  next
    case False
    then obtain x where "x \<in> set ?r" "\<not> dot x" by blast
    then have "takeWhile dot (?r @ b) = takeWhile dot ?r @ []"
      by (simp add: takeWhile_append1)
    then show ?thesis using that [of "[]"] by simp
  qed
  have disj: "set d \<inter> set b' = {}" using assms(2) b' by blast
  have lo: "last_occ d (takeWhile dot ?r @ b') = last_occ d (takeWhile dot ?r)"
    using assms(1) disj by (rule last_occ_append_disjoint)
  have tk: "take k (takeWhile dot ?r @ b') = take k (takeWhile dot ?r)"
    if "last_occ d (takeWhile dot ?r) = Some k" for k
    using last_occ_bound [OF that] by simp
  have p: "prefix d (t @ b)" using True by (rule prefix_prefix)
  show ?thesis
    unfolding emphasisRegex_def Let_def dr tw lo
    using True p tk by (simp split: option.split)
next
  case False
  then have "\<not> prefix d (t @ b)"
    using prefix_append_disjoint [OF assms(2), of t] by simp
  then show ?thesis using False by (simp add: emphasisRegex_def)
qed

lemma gsub_suffix_local:
  assumes loc: "\<And>q t. rx q (t @ b) = rx q t"
      and bound: "\<And>q t n gs. rx q t = Some (n, gs) \<Longrightarrow> 0 < n \<and> n \<le> length t"
      and idb: "\<And>q. gsub rx repl q b = b"
  shows "gsub rx repl p (a @ b) = gsub rx repl p a @ b"
proof (induction a arbitrary: p rule: length_induct)
  case (1 a)
  have e: "rx p (a @ b) = rx p a" by (rule loc)
  show ?case
  proof (cases "rx p a")
    case None
    show ?thesis
    proof (cases a)
      case Nil
      then show ?thesis using None idb by simp
    next
      case (Cons c cs)
      then show ?thesis using None e 1 by simp
    qed
  next
    case (Some r)
    obtain n gs where r: "r = (n, gs)" by (cases r)
    have n: "0 < n" "n \<le> length a" using bound Some r by blast+
    have "length (drop n a) < length a" using n by simp
    then have ih: "gsub rx repl q (drop n a @ b) = gsub rx repl q (drop n a) @ b" for q
      using 1 by blast
    have "gsub rx repl p (a @ b)
      = expand repl gs @ gsub rx repl (Some (last (take n (a @ b)))) (drop n (a @ b))"
      using e Some r n by (intro gsub_hit) simp_all
    moreover have "gsub rx repl p a
      = expand repl gs @ gsub rx repl (Some (last (take n a))) (drop n a)"
      using Some r n by (intro gsub_hit) simp_all
    ultimately show ?thesis using n ih by simp
  qed
qed

lemma emphasis_wrap:
  assumes "d \<noteq> []" and "set d \<subseteq> {STAR}" and "STAR \<notin> set a" and "STAR \<notin> set b"
  shows "replace (emphasisRegex d) repl (a @ t @ b) = a @ replace (emphasisRegex d) repl t @ b"
proof -
  obtain d' where d: "d = STAR # d'" using assms(1,2) by (cases d) auto
  have disj: "set d \<inter> set b = {}" using assms(2,4) by auto
  have idb: "gsub (emphasisRegex d) repl q b = b" for q
  proof (rule gsub_id)
    fix q' u assume "suffix u b"
    then have "STAR \<notin> set u" using assms(4) by (rule suffix_set)
    then have "\<not> prefix d u" unfolding d using prefix_hd_in_set by fast
    then show "emphasisRegex d q' u = None" by (rule emphasisRegex_first)
  qed
  have tb: "gsub (emphasisRegex d) repl q (t @ b) = gsub (emphasisRegex d) repl q t @ b" for q
  proof (rule gsub_suffix_local)
    show "emphasisRegex d q (u @ b) = emphasisRegex d q u" for q u
      using assms(1) disj by (rule emphasisRegex_before)
    show "0 < n \<and> n \<le> length u" if "emphasisRegex d q u = Some (n, gs)" for q u n gs
      using emphasisRegex_Some [OF that assms(1)] by blast
    show "gsub (emphasisRegex d) repl q b = b" for q by (rule idb)
  qed
  have pv: "gsub (emphasisRegex d) repl q t = gsub (emphasisRegex d) repl None t" for q
    by (rule gsub_prev) (simp add: emphasisRegex_def)
  have "gsub (emphasisRegex d) repl None (a @ (t @ b))
    = a @ gsub (emphasisRegex d) repl (if a = [] then None else Some (last a)) (t @ b)"
  proof (rule gsub_skip)
    fix q u assume "suffix u a" and "u \<noteq> []"
    then have "\<not> prefix d (u @ t @ b)"
      unfolding d using suffix_hd_set [OF _ _ assms(3)] by blast
    then show "emphasisRegex d q (u @ t @ b) = None" by (rule emphasisRegex_first)
  qed
  then show ?thesis unfolding replace_def tb using pv by simp
qed

lemma emphasisRules_wrap:
  assumes "STAR \<notin> set a" and "STAR \<notin> set b"
  shows "emphasisRules (a @ t @ b) = a @ emphasisRules t @ b"
  unfolding emphasisRules_def
  using emphasis_wrap [of "js ''**''" a b strong_repl t]
    emphasis_wrap [of "js ''*''" a b em_repl "replace (emphasisRegex (js ''**'')) strong_repl t"]
    assms by simp

lemma emphasisRules_keeps_out:
  assumes "c \<notin> set (js ''<strong></strong><em></em>'')" and "c \<notin> set t"
  shows "c \<notin> set (emphasisRules t)"
proof -
  have e: "c \<notin> set (replace (emphasisRegex d) [Lit x, G1, Lit y] u)"
    if "d \<noteq> []" "c \<notin> set x" "c \<notin> set y" "c \<notin> set u" for d x y u
    unfolding replace_def using emphasisRegex_Some [OF _ that(1)] that(2,3,4)
    by (intro gsub_keeps_out) blast+
  have 1: "c \<notin> set (replace (emphasisRegex (js ''**'')) strong_repl t)"
    unfolding strong_repl_def using assms by (intro e) auto
  show ?thesis
    unfolding emphasisRules_def em_repl_def using 1 assms(1) by (intro e) auto
qed

subsection \<open>A heading line\<close>

lemma fence_and_break_rules_on_one_line:
  assumes "LF \<notin> set s"
  shows "replace newlineRegex br_repl
       (replace codeRegex pre_repl (replace mermaidRegex placeholder_repl s)) = s"
  using fences_id_on_one_line [OF assms] newline_id_without_newline [OF assms] by simp

lemma heading_rules_other_line:
  assumes "list_all dot s" and "\<not> prefix (js ''# '') s" and "\<not> prefix (js ''## '') s"
      and "\<not> prefix (js ''### '') s"
  shows "headingRules s = s"
  unfolding headingRules_def
  using heading_other_line [OF assms(1,2)] heading_other_line [OF assms(1,3)]
    heading_other_line [OF assms(1,4)] by simp

lemma renderMarkdown_wrapped_line:
  assumes "headingRules s = a @ t @ b" and "list_all dot t"
      and "list_all dot a" and "STAR \<notin> set a" and "list_all dot b" and "STAR \<notin> set b"
  shows "renderMarkdown s = a @ emphasisRules t @ b"
proof -
  have "LF \<notin> set t" using assms(2) by (simp add: dot_iff)
  then have "LF \<notin> set (emphasisRules t)" by (intro emphasisRules_keeps_out) simp_all
  moreover have "LF \<notin> set a" "LF \<notin> set b" using assms(3,5) by (simp_all add: dot_iff)
  ultimately have "LF \<notin> set (a @ emphasisRules t @ b)" by simp
  then show ?thesis
    unfolding renderMarkdown_rules assms(1) emphasisRules_wrap [OF assms(4,6)]
    by (rule fence_and_break_rules_on_one_line)
qed

lemma heading_rule_of_level:
  assumes "list_all dot t"
  shows "headingRules (js ''# '' @ t) = h1Element t"
    and "headingRules (js ''## '' @ t) = h2Element t"
    and "headingRules (js ''### '' @ t) = h3Element t"
    and "headingRules (js ''#### '' @ t) = js ''#### '' @ t"
    and "headingRules (js ''##### '' @ t) = js ''##### '' @ t"
    and "headingRules (js ''###### '' @ t) = js ''###### '' @ t"
proof -
  have d1: "list_all dot (h1Element t)" and d2: "list_all dot (h2Element t)"
    and d3: "list_all dot (h3Element t)"
    using assms
    by (simp_all add: h1Element_def h2Element_def h3Element_def dot_def lineTerminator_def)
  have a1: "replace (headingRegex (js ''# '')) h1_repl (js ''# '' @ t) = h1Element t"
    unfolding h1_repl_def h1Element_def using assms by (intro heading_this_line) simp_all
  have a2: "replace (headingRegex (js ''## '')) h2_repl (h1Element t) = h1Element t"
    using d1 by (intro heading_other_line) (simp_all add: h1Element_def)
  have a3: "replace (headingRegex (js ''### '')) h3_repl (h1Element t) = h1Element t"
    using d1 by (intro heading_other_line) (simp_all add: h1Element_def)
  show "headingRules (js ''# '' @ t) = h1Element t"
    unfolding headingRules_def a1 a2 a3 ..
  have dt2: "list_all dot (js ''## '' @ t)" and dt3: "list_all dot (js ''### '' @ t)"
    using assms by (simp_all add: dot_def lineTerminator_def)
  have b1: "replace (headingRegex (js ''# '')) h1_repl (js ''## '' @ t) = js ''## '' @ t"
    using dt2 by (intro heading_other_line) simp_all
  have b2: "replace (headingRegex (js ''## '')) h2_repl (js ''## '' @ t) = h2Element t"
    unfolding h2_repl_def h2Element_def using assms by (intro heading_this_line) simp_all
  have b3: "replace (headingRegex (js ''### '')) h3_repl (h2Element t) = h2Element t"
    using d2 by (intro heading_other_line) (simp_all add: h2Element_def)
  show "headingRules (js ''## '' @ t) = h2Element t"
    unfolding headingRules_def b1 b2 b3 ..
  have c1: "replace (headingRegex (js ''# '')) h1_repl (js ''### '' @ t) = js ''### '' @ t"
    using dt3 by (intro heading_other_line) simp_all
  have c2: "replace (headingRegex (js ''## '')) h2_repl (js ''### '' @ t) = js ''### '' @ t"
    using dt3 by (intro heading_other_line) simp_all
  have c3: "replace (headingRegex (js ''### '')) h3_repl (js ''### '' @ t) = h3Element t"
    unfolding h3_repl_def h3Element_def using assms by (intro heading_this_line) simp_all
  show "headingRules (js ''### '' @ t) = h3Element t"
    unfolding headingRules_def c1 c2 c3 ..
  have o: "headingRules (m @ t) = m @ t"
    if "list_all dot m" "\<not> prefix (js ''# '') (m @ t)" "\<not> prefix (js ''## '') (m @ t)"
      "\<not> prefix (js ''### '') (m @ t)" for m
    using that assms by (intro heading_rules_other_line) simp_all
  show "headingRules (js ''#### '' @ t) = js ''#### '' @ t"
    by (rule o) (simp_all add: dot_def lineTerminator_def)
  show "headingRules (js ''##### '' @ t) = js ''##### '' @ t"
    by (rule o) (simp_all add: dot_def lineTerminator_def)
  show "headingRules (js ''###### '' @ t) = js ''###### '' @ t"
    by (rule o) (simp_all add: dot_def lineTerminator_def)
qed

lemma heading_line_alone:
  assumes "list_all dot t"
  shows "renderMarkdown (js ''# '' @ t) = h1Element (emphasisRules t)"
    and "renderMarkdown (js ''## '' @ t) = h2Element (emphasisRules t)"
    and "renderMarkdown (js ''### '' @ t) = h3Element (emphasisRules t)"
    and "renderMarkdown (js ''#### '' @ t) = js ''#### '' @ emphasisRules t"
    and "renderMarkdown (js ''##### '' @ t) = js ''##### '' @ emphasisRules t"
    and "renderMarkdown (js ''###### '' @ t) = js ''###### '' @ emphasisRules t"
proof -
  note h = heading_rule_of_level [OF assms]
  have w: "renderMarkdown s = a @ emphasisRules t @ b"
    if "headingRules s = a @ t @ b" "list_all dot a" "STAR \<notin> set a" "list_all dot b"
      "STAR \<notin> set b" for s a b
    using that(1) assms that(2-5) by (rule renderMarkdown_wrapped_line)
  show "renderMarkdown (js ''# '' @ t) = h1Element (emphasisRules t)"
    unfolding h1Element_def
    by (rule w [OF h(1) [unfolded h1Element_def]]) (simp_all add: dot_def lineTerminator_def)
  show "renderMarkdown (js ''## '' @ t) = h2Element (emphasisRules t)"
    unfolding h2Element_def
    by (rule w [OF h(2) [unfolded h2Element_def]]) (simp_all add: dot_def lineTerminator_def)
  show "renderMarkdown (js ''### '' @ t) = h3Element (emphasisRules t)"
    unfolding h3Element_def
    by (rule w [OF h(3) [unfolded h3Element_def]]) (simp_all add: dot_def lineTerminator_def)
  show "renderMarkdown (js ''#### '' @ t) = js ''#### '' @ emphasisRules t"
    using w [of "js ''#### '' @ t" "js ''#### ''" "[]"] h(4)
    by (simp add: dot_def lineTerminator_def)
  show "renderMarkdown (js ''##### '' @ t) = js ''##### '' @ emphasisRules t"
    using w [of "js ''##### '' @ t" "js ''##### ''" "[]"] h(5)
    by (simp add: dot_def lineTerminator_def)
  show "renderMarkdown (js ''###### '' @ t) = js ''###### '' @ emphasisRules t"
    using w [of "js ''###### '' @ t" "js ''###### ''" "[]"] h(6)
    by (simp add: dot_def lineTerminator_def)
qed

subsection \<open>Fenced blocks\<close>

lemma headingRules_across_newline:
  "headingRules (a @ LF # b) = headingRules a @ LF # headingRules b"
  by (simp add: headingRules_def heading_across_newline)

lemma emphasisRules_across_newline:
  "emphasisRules (a @ LF # b) = emphasisRules a @ LF # emphasisRules b"
  by (simp add: emphasisRules_def emphasis_across_newline)

lemma emphasisRules_id_without_star: "STAR \<notin> set s \<Longrightarrow> emphasisRules s = s"
  unfolding emphasisRules_def by (rule emphasis_rules_id_without_star)

lemma gsub_leaves_mark:
  assumes "\<And>gs. m \<in> set (expand repl gs)" and "c \<in> set s"
  shows "c \<in> set (gsub rx repl p s) \<or> m \<in> set (gsub rx repl p s)"
  using assms(2)
proof (induction s arbitrary: p)
  case Nil
  then show ?case by simp
next
  case (Cons d ds)
  show ?case
  proof (cases "rx p (d # ds)")
    case None
    show ?thesis
    proof (cases "c = d")
      case True
      then show ?thesis using None by simp
    next
      case False
      then have "c \<in> set ds" using Cons.prems by simp
      then show ?thesis using Cons.IH [of "Some d"] None by auto
    qed
  next
    case (Some r)
    obtain n gs where r: "r = (n, gs)" by (cases r)
    show ?thesis using Some assms(1) [of gs] unfolding r by (cases n) simp_all
  qed
qed

lemma emphasisRules_leaves_mark:
  assumes "STAR \<in> set s"
  shows "STAR \<in> set (emphasisRules s) \<or> asc (CHR ''<'') \<in> set (emphasisRules s)"
proof -
  let ?r = "replace (emphasisRegex (js ''**'')) strong_repl s"
  have 1: "STAR \<in> set ?r \<or> asc (CHR ''<'') \<in> set ?r"
    unfolding replace_def using assms
    by (intro gsub_leaves_mark) (simp_all add: strong_repl_def)
  show ?thesis
  proof (cases "STAR \<in> set ?r")
    case True
    then show ?thesis
      unfolding emphasisRules_def replace_def [of _ em_repl]
      by (intro gsub_leaves_mark) (simp_all add: em_repl_def)
  next
    case False
    then have "emphasisRules s = ?r"
      unfolding emphasisRules_def using emphasis_id_without_star [of ?r "[]" em_repl] by simp
    then show ?thesis using 1 False by simp
  qed
qed

lemma emphasisRules_not_mermaid:
  assumes "lang \<noteq> js ''mermaid''"
  shows "emphasisRules lang \<noteq> js ''mermaid''"
proof (cases "STAR \<in> set lang")
  case True
  have "STAR \<notin> set (js ''mermaid'')" and "asc (CHR ''<'') \<notin> set (js ''mermaid'')" by simp_all
  then show ?thesis using emphasisRules_leaves_mark [OF True] by metis
next
  case False
  then show ?thesis using assms by (simp add: emphasisRules_id_without_star)
qed

lemma emphasisRules_keeps_line:
  assumes "list_all dot s"
  shows "list_all dot (emphasisRules s)"
proof -
  have "c \<notin> set (emphasisRules s)"
    if "c \<notin> set s" and "c \<notin> set (js ''<strong></strong><em></em>'')" for c
    using that(2,1) by (rule emphasisRules_keeps_out)
  then show ?thesis using assms unfolding dot_iff by simp
qed

lemma line_rules_on_fence_line:
  assumes "list_all dot lang"
  shows "emphasisRules (headingRules (js ''```'' @ lang)) = js ''```'' @ emphasisRules lang"
proof -
  have "headingRules (js ''```'' @ lang) = js ''```'' @ lang"
    using assms(1) by (intro heading_rules_other_line) (simp_all add: dot_def lineTerminator_def)
  moreover have "emphasisRules (js ''```'' @ lang @ []) = js ''```'' @ emphasisRules lang @ []"
    by (rule emphasisRules_wrap) simp_all
  ultimately show ?thesis by simp
qed

lemma line_rules_on_code_fence:
  assumes "list_all dot lang"
  shows "emphasisRules (headingRules (codeFence lang body))
           = codeFence (emphasisRules lang) (emphasisRules (headingRules body))"
    and "emphasisRules (headingRules (codeFence lang body @ LF # rest))
           = codeFence (emphasisRules lang) (emphasisRules (headingRules body))
               @ LF # emphasisRules (headingRules rest)"
proof -
  have c: "codeFence l b = (js ''```'' @ l) @ LF # b @ LF # js ''```''" for l b
    by (simp add: codeFence_def)
  have e: "emphasisRules (headingRules (js ''```'')) = js ''```''"
    using line_rules_on_fence_line [of "[]"] by (simp add: emphasisRules_id_without_star)
  show "emphasisRules (headingRules (codeFence lang body))
           = codeFence (emphasisRules lang) (emphasisRules (headingRules body))"
    unfolding c headingRules_across_newline emphasisRules_across_newline
      line_rules_on_fence_line [OF assms] e ..
  have c': "codeFence l b @ LF # r = (js ''```'' @ l) @ LF # b @ LF # js ''```'' @ LF # r"
    for l b r
    by (simp add: codeFence_def)
  show "emphasisRules (headingRules (codeFence lang body @ LF # rest))
           = codeFence (emphasisRules lang) (emphasisRules (headingRules body))
               @ LF # emphasisRules (headingRules rest)"
    unfolding c' headingRules_across_newline emphasisRules_across_newline
      line_rules_on_fence_line [OF assms] e ..
qed

lemma line_rules_on_diagram_fence:
  shows "emphasisRules (headingRules (fenced d)) = fenced (emphasisRules (headingRules d))"
    and "emphasisRules (headingRules (fenced d @ LF # rest))
           = fenced (emphasisRules (headingRules d)) @ LF # emphasisRules (headingRules rest)"
proof -
  have l: "list_all dot (js ''mermaid'')"
    by (simp add: dot_def lineTerminator_def)
  have m: "emphasisRules (js ''mermaid'') = js ''mermaid''"
    by (rule emphasisRules_id_without_star) simp
  have f: "fenced b = codeFence (js ''mermaid'') b" for b
    by (simp add: fenced_def codeFence_def opener_def closer_def)
  show "emphasisRules (headingRules (fenced d)) = fenced (emphasisRules (headingRules d))"
    unfolding f using line_rules_on_code_fence (1) [OF l, of d] unfolding m .
  show "emphasisRules (headingRules (fenced d @ LF # rest))
           = fenced (emphasisRules (headingRules d)) @ LF # emphasisRules (headingRules rest)"
    unfolding f using line_rules_on_code_fence (2) [OF l, of d rest] unfolding m .
qed

lemma newline_rule_wrap:
  assumes "LF \<notin> set a" and "LF \<notin> set b"
  shows "replace newlineRegex br_repl (a @ t @ b) = a @ replace newlineRegex br_repl t @ b"
proof -
  have i: "gsub newlineRegex br_repl q x = x" if "LF \<notin> set x" for q x
  proof (rule gsub_id)
    fix q' u assume "suffix u x"
    then have "LF \<notin> set u" using that by (rule suffix_set)
    then have "\<not> prefix [LF] u" using prefix_hd_in_set by fast
    then show "newlineRegex q' u = None" using newlineRegex_first by simp
  qed
  have "gsub newlineRegex br_repl None (a @ t @ b)
      = gsub newlineRegex br_repl None a @ gsub newlineRegex br_repl None (t @ b)"
    by (rule gsub_newline_append)
  also have "gsub newlineRegex br_repl None (t @ b)
      = gsub newlineRegex br_repl None t @ gsub newlineRegex br_repl None b"
    by (rule gsub_newline_append)
  finally show ?thesis
    unfolding replace_def i [OF assms(1)] i [OF assms(2)] .
qed

lemma newline_rule_on_code_element:
  "replace newlineRegex br_repl (codeElement body)
     = codeElement (replace newlineRegex br_repl body)"
  unfolding codeElement_def by (rule newline_rule_wrap) simp_all

lemma renderMarkdown_diagram_fence:
  assumes "\<not> occurs closer (emphasisRules (headingRules d))"
  shows "renderMarkdown (fenced d) = placeholderElement"
    and "renderMarkdown (fenced d @ LF # rest)
           = placeholderElement @ js ''<br>'' @ renderMarkdown rest"
proof -
  let ?D = "emphasisRules (headingRules d)"
  let ?R = "emphasisRules (headingRules rest)"
  let ?M = "replace mermaidRegex placeholder_repl ?R"
  note l = line_rules_on_diagram_fence [of d]
  have ne: "fenced ?D \<noteq> []" by (simp add: fenced_def opener_def)
  have bt: "BT \<notin> set placeholderElement" and nl: "LF \<notin> set placeholderElement"
    by (simp_all add: placeholderElement_def)
  have ex: "expand placeholder_repl [?D] = placeholderElement"
    by (simp add: placeholder_repl_def placeholderElement_def)
  have m: "mermaidRegex None (fenced ?D @ r) = Some (length (fenced ?D), [?D])" for r
    using mermaidRegex_fenced [OF assms, of None r]
    by (simp add: fenced_def length_opener length_closer)
  have "gsub mermaidRegex placeholder_repl None (fenced ?D) = expand placeholder_repl [?D]"
    using m [of "[]"] ne by (intro gsub_hit_all) (simp_all add: mermaidRegex_def)
  then have mer: "replace mermaidRegex placeholder_repl (fenced ?D) = placeholderElement"
    by (simp add: replace_def ex)
  show "renderMarkdown (fenced d) = placeholderElement"
    unfolding renderMarkdown_rules l(1) mer
      code_id_without_backtick [OF bt] newline_id_without_newline [OF nl] ..
  let ?T = "fenced ?D @ LF # ?R"
  have dr: "drop (length (fenced ?D)) ?T = LF # ?R" by simp
  have tail: "gsub mermaidRegex placeholder_repl q (LF # ?R) = LF # ?M" for q
  proof -
    have "gsub mermaidRegex placeholder_repl (Some LF) ?R = ?M"
      unfolding replace_def by (rule gsub_prev) (simp add: mermaidRegex_def)
    moreover have "mermaidRegex q (LF # ?R) = None" by (simp add: mermaidRegex_def)
    ultimately show ?thesis by simp
  qed
  have "gsub mermaidRegex placeholder_repl None ?T
      = expand placeholder_repl [?D]
        @ gsub mermaidRegex placeholder_repl (Some (last (take (length (fenced ?D)) ?T)))
            (drop (length (fenced ?D)) ?T)"
    using m [of "LF # ?R"] ne by (intro gsub_hit) simp_all
  then have mer': "replace mermaidRegex placeholder_repl ?T = placeholderElement @ LF # ?M"
    unfolding dr tail ex by (simp add: replace_def)
  show "renderMarkdown (fenced d @ LF # rest)
           = placeholderElement @ js ''<br>'' @ renderMarkdown rest"
    unfolding renderMarkdown_rules [of "fenced d @ LF # rest"] renderMarkdown_rules [of rest]
      l(2) mer' code_across_newline [OF bt] code_id_without_backtick [OF bt]
      newline_across_newline newline_id_without_newline [OF nl] ..
qed

subsection \<open>A line between emphasis markers\<close>

lemma no_occurrence_suffix:
  assumes "\<not> occurs pat s" and "suffix t s"
  shows "\<not> prefix pat t"
  using assms unfolding occurs_def
proof (induction s)
  case Nil
  then show ?case by (auto split: if_splits)
next
  case (Cons c cs)
  then show ?case by (auto simp: suffix_Cons split: if_splits)
qed

lemma bold_id_without_two_stars:
  assumes "\<not> occurs (js ''**'') s"
  shows "replace (emphasisRegex (js ''**'')) repl s = s"
  unfolding replace_def
proof (rule gsub_id)
  fix q t assume "suffix t s"
  then have "\<not> prefix (js ''**'') t" using assms by (intro no_occurrence_suffix)
  then show "emphasisRegex (js ''**'') q t = None" by (rule emphasisRegex_first)
qed

lemma emphasis_rule_on_whole_line:
  assumes "list_all dot x" and "d \<noteq> []" and "set d \<subseteq> {STAR}"
      and "last_occ d (x @ d) = Some (length x)"
  shows "replace (emphasisRegex d) [Lit a, G1, Lit b] (d @ x @ d) = a @ x @ b"
proof -
  have "list_all dot d"
    using assms(3) by (auto simp: list_all_iff dot_def lineTerminator_def)
  then have tw: "takeWhile dot (x @ d) = x @ d"
    using assms(1) by (intro takeWhile_dot_all) simp
  have dr: "drop (length d) (d @ x @ d) = x @ d" by simp
  have "emphasisRegex d None (d @ x @ d) = Some (length (d @ x @ d), [x])"
    unfolding emphasisRegex_def Let_def dr tw assms(4) by simp
  then have "gsub (emphasisRegex d) [Lit a, G1, Lit b] None (d @ x @ d)
      = expand [Lit a, G1, Lit b] [x]"
    using assms(2) by (intro gsub_hit_all) (simp_all add: emphasisRegex_def)
  then show ?thesis by (simp add: replace_def)
qed

lemma not_heading_line:
  assumes "list_all dot s" and "HASH \<noteq> hd s"
  shows "headingRules s = s"
  using assms(1)
proof (rule heading_rules_other_line)
  show "\<not> prefix (js ''# '') s" "\<not> prefix (js ''## '') s" "\<not> prefix (js ''### '') s"
    using assms(2) by (auto simp: prefix_def)
qed

lemma emphasis_rule_keeps_out:
  assumes "d \<noteq> []" and "c \<notin> set x" and "c \<notin> set y" and "c \<notin> set u"
  shows "c \<notin> set (replace (emphasisRegex d) [Lit x, G1, Lit y] u)"
  unfolding replace_def using emphasisRegex_Some [OF _ assms(1)] assms(2,3,4)
  by (intro gsub_keeps_out) blast+

lemma bold_line:
  assumes "list_all dot x"
  shows "renderMarkdown (js ''**'' @ x @ js ''**'')
           = js ''<strong>'' @ replace (emphasisRegex (js ''*'')) em_repl x @ js ''</strong>''"
proof -
  let ?s = "js ''**'' @ x @ js ''**''"
  let ?i = "replace (emphasisRegex (js ''*'')) em_repl x"
  have ds: "list_all dot ?s" using assms by (simp add: dot_def lineTerminator_def)
  have h: "headingRules ?s = ?s" using ds by (rule not_heading_line) simp
  have b: "replace (emphasisRegex (js ''**'')) strong_repl ?s
      = js ''<strong>'' @ x @ js ''</strong>''"
    unfolding strong_repl_def using assms
    by (rule emphasis_rule_on_whole_line) (use last_occ_bold_end [of x] in simp_all)
  have i: "replace (emphasisRegex (js ''*'')) em_repl (js ''<strong>'' @ x @ js ''</strong>'')
      = js ''<strong>'' @ ?i @ js ''</strong>''"
    by (rule emphasis_wrap) simp_all
  have "LF \<notin> set x" using assms by (simp add: dot_iff)
  then have "LF \<notin> set ?i"
    unfolding em_repl_def by (intro emphasis_rule_keeps_out) simp_all
  then have nl: "LF \<notin> set (js ''<strong>'' @ ?i @ js ''</strong>'')" by simp
  show ?thesis
    unfolding renderMarkdown_rules emphasisRules_def h b i
    using nl by (rule fence_and_break_rules_on_one_line)
qed

lemma last_occ_star_end: "last_occ (js ''*'') (b @ js ''*'') = Some (length b)"
  by (induction b) simp_all

lemma italic_line:
  assumes "list_all dot y" and "\<not> occurs (js ''**'') (js ''*'' @ y @ js ''*'')"
  shows "renderMarkdown (js ''*'' @ y @ js ''*'') = js ''<em>'' @ y @ js ''</em>''"
proof -
  let ?s = "js ''*'' @ y @ js ''*''"
  have ds: "list_all dot ?s" using assms(1) by (simp add: dot_def lineTerminator_def)
  have h: "headingRules ?s = ?s" using ds by (rule not_heading_line) simp
  have b: "replace (emphasisRegex (js ''**'')) strong_repl ?s = ?s"
    using assms(2) by (rule bold_id_without_two_stars)
  have i: "replace (emphasisRegex (js ''*'')) em_repl ?s = js ''<em>'' @ y @ js ''</em>''"
    unfolding em_repl_def using assms(1)
    by (rule emphasis_rule_on_whole_line) (use last_occ_star_end [of y] in simp_all)
  have "LF \<notin> set y" using assms(1) by (simp add: dot_iff)
  then have nl: "LF \<notin> set (js ''<em>'' @ y @ js ''</em>'')" by simp
  show ?thesis
    unfolding renderMarkdown_rules emphasisRules_def h b i
    using nl by (rule fence_and_break_rules_on_one_line)
qed

subsection \<open>Texts without three backticks in a row\<close>

text \<open>
  The heading and emphasis rules put no three backticks in a row into a text that has
  none, and both fence rules start at three backticks.
\<close>

lemma occurs_Cons: "occurs pat (c # r) \<longleftrightarrow> prefix pat (c # r) \<or> occurs pat r"
  by (simp add: occurs_def)

lemma occurs_iff: "occurs pat s \<longleftrightarrow> (\<exists>u v. s = u @ pat @ v)"
proof
  show "occurs pat s \<Longrightarrow> \<exists>u v. s = u @ pat @ v"
  proof (induction s)
    case Nil
    then show ?case by (simp add: occurs_def split: if_splits)
  next
    case (Cons c r)
    then consider "prefix pat (c # r)" | "occurs pat r" by (auto simp: occurs_Cons)
    then show ?case
    proof cases
      case 1
      then obtain v where "c # r = pat @ v" by (auto simp: prefix_def)
      then have "c # r = [] @ pat @ v" by simp
      then show ?thesis by blast
    next
      case 2
      then obtain u v where "r = u @ pat @ v" using Cons.IH by blast
      then have "c # r = (c # u) @ pat @ v" by simp
      then show ?thesis by blast
    qed
  qed
  show "\<exists>u v. s = u @ pat @ v \<Longrightarrow> occurs pat s"
  proof -
    assume "\<exists>u v. s = u @ pat @ v"
    then obtain u v where s: "s = u @ pat @ v" by blast
    have "occurs pat (u @ pat @ v)"
    proof (induction u)
      case Nil
      have "prefix pat (pat @ v)" by simp
      then show ?case by (cases "pat @ v") (auto simp: occurs_def)
    next
      case (Cons c u)
      then show ?case by (simp add: occurs_Cons)
    qed
    then show ?thesis using s by simp
  qed
qed

lemma occurs_part: "occurs pat g \<Longrightarrow> occurs pat (a @ g @ b)"
proof -
  assume "occurs pat g"
  then obtain u v where "g = u @ pat @ v" unfolding occurs_iff by blast
  then have "a @ g @ b = (a @ u) @ pat @ (v @ b)" by simp
  then show ?thesis unfolding occurs_iff by blast
qed

lemma occurs_drop: "occurs pat (drop n s) \<Longrightarrow> occurs pat s"
  using occurs_part [of pat "drop n s" "take n s" "[]"] by simp

lemma occurs_closer_fence: "occurs closer s \<Longrightarrow> occurs (js ''```'') s"
proof -
  assume "occurs closer s"
  then obtain u v where "s = u @ closer @ v" unfolding occurs_iff by blast
  then have "s = (u @ [LF]) @ js ''```'' @ v" by (simp add: closer_def)
  then show ?thesis unfolding occurs_iff by blast
qed

lemma no_backtick_no_fence: "BT \<notin> set s \<Longrightarrow> \<not> occurs (js ''```'') s"
  unfolding occurs_iff by auto

lemma fence_free_after_tag:
  "BT \<notin> set y \<Longrightarrow> \<not> occurs (js ''```'') r \<Longrightarrow> \<not> occurs (js ''```'') (y @ r)"
  by (induction y) (simp_all add: occurs_Cons)

lemma fence_free_before_tag:
  "\<not> occurs (js ''```'') g \<Longrightarrow> \<not> occurs (js ''```'') (z # r) \<Longrightarrow> z \<noteq> BT
     \<Longrightarrow> \<not> occurs (js ''```'') (g @ z # r)"
proof (induction g)
  case Nil
  then show ?case by simp
next
  case (Cons c g)
  have "\<not> prefix (js ''```'') (c # g @ z # r)"
  proof
    assume p: "prefix (js ''```'') (c # g @ z # r)"
    show False
    proof (cases g)
      case Nil
      then show ?thesis using p Cons.prems(3) by simp
    next
      case g: (Cons a g')
      show ?thesis
      proof (cases g')
        case Nil
        then show ?thesis using p g Cons.prems(3) by simp
      next
        case (Cons b g'')
        then have "prefix (js ''```'') (c # g)" using p g by auto
        then show ?thesis using Cons.prems(1) by (auto simp: occurs_Cons)
      qed
    qed
  qed
  moreover have "\<not> occurs (js ''```'') (g @ z # r)"
    using Cons by (simp add: occurs_Cons)
  ultimately show ?case by (simp add: occurs_Cons)
qed

lemma fence_free_wrap:
  assumes "x \<noteq> []" and "BT \<notin> set x" and "y \<noteq> []" and "BT \<notin> set y"
      and "\<not> occurs (js ''```'') g" and "\<not> occurs (js ''```'') r"
  shows "\<not> occurs (js ''```'') (x @ g @ y @ r)"
proof -
  obtain z y' where y: "y = z # y'" using assms(3) by (cases y) auto
  have "\<not> occurs (js ''```'') (y @ r)" using assms(4,6) by (rule fence_free_after_tag)
  then have "\<not> occurs (js ''```'') (g @ z # y' @ r)"
    using assms(4,5) unfolding y by (intro fence_free_before_tag) auto
  then have "\<not> occurs (js ''```'') (g @ y @ r)" by (simp add: y)
  then show ?thesis using assms(2) by (rule fence_free_after_tag [rotated])
qed

lemma fence_free_across_newline:
  assumes "\<not> occurs (js ''```'') a" and "\<not> occurs (js ''```'') b"
  shows "\<not> occurs (js ''```'') (a @ LF # b)"
proof -
  have "\<not> occurs (js ''```'') ([LF] @ b)" using assms(2) by (intro fence_free_after_tag) simp_all
  then show ?thesis using assms(1) by (intro fence_free_before_tag) simp_all
qed

lemma gsub_keeps_fence_free:
  assumes caps: "\<And>q t n gs. rx q t = Some (n, gs) \<Longrightarrow>
                   0 < n \<and> n \<le> length t \<and> (\<exists>g a b. gs = [g] \<and> t = a @ g @ b)"
      and x: "x \<noteq> []" "BT \<notin> set x" and y: "y \<noteq> []" "BT \<notin> set y"
      and "\<not> occurs (js ''```'') s"
  shows "\<not> occurs (js ''```'') (gsub rx [Lit x, G1, Lit y] p s)
    \<and> (\<forall>k. prefix (replicate k BT) (gsub rx [Lit x, G1, Lit y] p s) \<longrightarrow> prefix (replicate k BT) s)"
  using assms(6)
proof (induction s arbitrary: p rule: length_induct)
  case (1 s)
  let ?F = "\<lambda>p s. gsub rx [Lit x, G1, Lit y] p s"
  show ?case
  proof (cases "rx p s")
    case None
    show ?thesis
    proof (cases s)
      case Nil
      then show ?thesis using None by (simp add: occurs_def)
    next
      case (Cons c cs)
      have f: "?F p s = c # ?F (Some c) cs" using None Cons by simp
      have "\<not> occurs (js ''```'') cs" using "1.prems" Cons by (simp add: occurs_Cons)
      then have ih: "\<not> occurs (js ''```'') (?F (Some c) cs)"
        and lead: "prefix (replicate k BT) (?F (Some c) cs) \<Longrightarrow> prefix (replicate k BT) cs" for k
        using 1 Cons by auto
      have l: "prefix (replicate k BT) (c # ?F (Some c) cs) \<Longrightarrow> prefix (replicate k BT) (c # cs)"
        for k
        using lead [of "k - 1"] by (cases k) auto
      have r3: "replicate 3 BT = js ''```''" by (simp add: numeral_3_eq_3)
      have np: "\<not> prefix (js ''```'') (c # cs)"
        using "1.prems" Cons by (simp add: occurs_Cons)
      have "\<not> prefix (js ''```'') (c # ?F (Some c) cs)"
      proof
        assume "prefix (js ''```'') (c # ?F (Some c) cs)"
        then have "prefix (replicate 3 BT) (c # ?F (Some c) cs)" unfolding r3 .
        then have "prefix (replicate 3 BT) (c # cs)" by (rule l)
        then show False using np unfolding r3 by blast
      qed
      then show ?thesis unfolding f using ih l Cons by (simp add: occurs_Cons)
    qed
  next
    case (Some r)
    obtain n gs where r: "r = (n, gs)" by (cases r)
    from caps [OF Some [unfolded r]] obtain g a b where
      n: "0 < n" "n \<le> length s" and g: "gs = [g]" "s = a @ g @ b" by blast
    have "length (drop n s) < length s" using n by simp
    moreover have "\<not> occurs (js ''```'') (drop n s)" using "1.prems" occurs_drop by blast
    ultimately have ih: "\<not> occurs (js ''```'') (?F q (drop n s))" for q
      using 1 by blast
    have f: "?F p s = x @ g @ y @ ?F (Some (last (take n s))) (drop n s)"
      using gsub_hit [of rx p s n gs "[Lit x, G1, Lit y]"] Some r n g by simp
    have "\<not> occurs (js ''```'') g" using "1.prems" g(2) occurs_part by blast
    then have "\<not> occurs (js ''```'') (?F p s)"
      unfolding f using x y ih by (intro fence_free_wrap)
    moreover have "prefix (replicate k BT) s" if "prefix (replicate k BT) (?F p s)" for k
    proof -
      have "k = 0" using that x unfolding f by (cases x; cases k) auto
      then show ?thesis by simp
    qed
    ultimately show ?thesis by blast
  qed
qed

lemma headingRegex_Some_part:
  assumes "headingRegex m q t = Some (n, gs)"
  shows "\<exists>g a b. gs = [g] \<and> t = a @ g @ b"
proof -
  let ?r = "drop (length m) t"
  from assms have gs: "gs = [takeWhile dot ?r]"
    by (auto simp: headingRegex_def Let_def split: if_splits)
  have "t = take (length m) t @ takeWhile dot ?r @ dropWhile dot ?r" by simp
  then show ?thesis using gs by blast
qed

lemma emphasisRegex_Some_part:
  assumes "emphasisRegex d q t = Some (n, gs)"
  shows "\<exists>g a b. gs = [g] \<and> t = a @ g @ b"
proof -
  let ?r = "drop (length d) t"
  let ?line = "takeWhile dot ?r"
  from assms obtain k where gs: "gs = [take k ?line]"
    by (auto simp: emphasisRegex_def Let_def split: if_splits option.splits)
  have "?r = (take k ?line @ drop k ?line) @ dropWhile dot ?r" by simp
  then have "t = take (length d) t @ take k ?line @ (drop k ?line @ dropWhile dot ?r)"
    by (metis append_assoc append_take_drop_id)
  then show ?thesis using gs by blast
qed

lemma heading_rule_keeps_fence_free:
  assumes "m \<noteq> []" and "x \<noteq> []" "BT \<notin> set x" and "y \<noteq> []" "BT \<notin> set y"
      and "\<not> occurs (js ''```'') s"
  shows "\<not> occurs (js ''```'') (replace (headingRegex m) [Lit x, G1, Lit y] s)"
proof -
  have "0 < n \<and> n \<le> length t \<and> (\<exists>g a b. gs = [g] \<and> t = a @ g @ b)"
    if "headingRegex m q t = Some (n, gs)" for q t n gs
    using headingRegex_Some [OF that assms(1)] headingRegex_Some_part [OF that] by blast
  then show ?thesis
    unfolding replace_def using gsub_keeps_fence_free [OF _ assms(2-6)] by blast
qed

lemma emphasis_rule_keeps_fence_free:
  assumes "d \<noteq> []" and "x \<noteq> []" "BT \<notin> set x" and "y \<noteq> []" "BT \<notin> set y"
      and "\<not> occurs (js ''```'') s"
  shows "\<not> occurs (js ''```'') (replace (emphasisRegex d) [Lit x, G1, Lit y] s)"
proof -
  have "0 < n \<and> n \<le> length t \<and> (\<exists>g a b. gs = [g] \<and> t = a @ g @ b)"
    if "emphasisRegex d q t = Some (n, gs)" for q t n gs
    using emphasisRegex_Some [OF that assms(1)] emphasisRegex_Some_part [OF that] by blast
  then show ?thesis
    unfolding replace_def using gsub_keeps_fence_free [OF _ assms(2-6)] by blast
qed

lemma emphasisRules_keeps_fence_free:
  assumes "\<not> occurs (js ''```'') s"
  shows "\<not> occurs (js ''```'') (emphasisRules s)"
proof -
  have "\<not> occurs (js ''```'') (replace (emphasisRegex (js ''**'')) strong_repl s)"
    unfolding strong_repl_def using assms by (intro emphasis_rule_keeps_fence_free) simp_all
  then show ?thesis
    unfolding emphasisRules_def em_repl_def by (intro emphasis_rule_keeps_fence_free) simp_all
qed

lemma headingRules_keeps_fence_free:
  assumes "\<not> occurs (js ''```'') s"
  shows "\<not> occurs (js ''```'') (headingRules s)"
proof -
  have 1: "\<not> occurs (js ''```'') (replace (headingRegex (js ''# '')) h1_repl s)"
    unfolding h1_repl_def using assms by (intro heading_rule_keeps_fence_free) simp_all
  have 2: "\<not> occurs (js ''```'') (replace (headingRegex (js ''## '')) h2_repl
      (replace (headingRegex (js ''# '')) h1_repl s))"
    unfolding h2_repl_def using 1 by (intro heading_rule_keeps_fence_free) simp_all
  show ?thesis
    unfolding headingRules_def h3_repl_def using 2
    by (intro heading_rule_keeps_fence_free) simp_all
qed

lemma rules_keep_fence_free:
  "\<not> occurs (js ''```'') s \<Longrightarrow> \<not> occurs (js ''```'') (emphasisRules (headingRules s))"
  by (intro emphasisRules_keeps_fence_free headingRules_keeps_fence_free)

lemma prefix_fence_before_newline:
  assumes "prefix (js ''```'') (t @ LF # b)"
  shows "prefix (js ''```'') t"
proof -
  from assms have "prefix (js ''```'') t \<or> (\<exists>us. js ''```'' = t @ us \<and> prefix us (LF # b))"
    by (simp add: prefix_append)
  then show ?thesis
  proof
    assume "prefix (js ''```'') t"
    then show ?thesis .
  next
    assume "\<exists>us. js ''```'' = t @ us \<and> prefix us (LF # b)"
    then obtain us where u: "js ''```'' = t @ us" "prefix us (LF # b)" by blast
    show ?thesis
    proof (cases us)
      case Nil
      then show ?thesis using u(1) by simp
    next
      case (Cons z zs)
      then have "z = LF" using u(2) by simp
      then have "LF \<in> set (t @ us)" using Cons by simp
      then show ?thesis unfolding u(1) [symmetric] by simp
    qed
  qed
qed

lemma fence_id_without_fence:
  assumes first: "\<And>q t. \<not> prefix (js ''```'') t \<Longrightarrow> rx q t = None"
      and "\<not> occurs (js ''```'') s"
  shows "replace rx repl s = s"
  unfolding replace_def
proof (rule gsub_id)
  fix q t assume "suffix t s"
  then have "\<not> prefix (js ''```'') t" using assms(2) by (intro no_occurrence_suffix)
  then show "rx q t = None" by (rule first)
qed

lemma gsub_skip_fence_free:
  assumes first: "\<And>q t. \<not> prefix (js ''```'') t \<Longrightarrow> rx q t = None"
      and "\<not> occurs (js ''```'') a"
  shows "gsub rx repl p (a @ LF # e) = a @ LF # gsub rx repl (Some LF) e"
proof -
  have "gsub rx repl p ((a @ [LF]) @ e)
    = (a @ [LF]) @ gsub rx repl (if a @ [LF] = [] then p else Some (last (a @ [LF]))) e"
  proof (rule gsub_skip)
    fix q t assume "suffix t (a @ [LF])" and "t \<noteq> []"
    then obtain t' where t: "t = t' @ [LF]" and s: "suffix t' a" by auto
    have "\<not> prefix (js ''```'') t'" using assms(2) s by (rule no_occurrence_suffix)
    then have "\<not> prefix (js ''```'') (t' @ LF # e)" using prefix_fence_before_newline by blast
    then show "rx q (t @ e) = None" unfolding t using first by simp
  qed
  then show ?thesis by simp
qed

lemma fence_rule_across_newline:
  assumes first: "\<And>q t. \<not> prefix (js ''```'') t \<Longrightarrow> rx q t = None"
      and prev: "\<And>q q' t. rx q t = rx q' t"
      and "\<not> occurs (js ''```'') a"
  shows "replace rx repl (a @ LF # b) = a @ LF # replace rx repl b"
proof -
  have "gsub rx repl (Some LF) b = gsub rx repl None b"
    by (rule gsub_prev) (rule prev)
  then show ?thesis
    unfolding replace_def using gsub_skip_fence_free [OF first assms(3), where p = None and e = b and repl = repl]
    by simp
qed

lemma mermaid_id_without_fence:
  "\<not> occurs (js ''```'') s \<Longrightarrow> replace mermaidRegex repl s = s"
  by (rule fence_id_without_fence) (simp add: mermaidRegex_first)

lemma code_id_without_fence:
  "\<not> occurs (js ''```'') s \<Longrightarrow> replace codeRegex repl s = s"
  by (rule fence_id_without_fence) (simp add: codeRegex_first)

lemma mermaid_rule_across_newline:
  "\<not> occurs (js ''```'') a \<Longrightarrow>
     replace mermaidRegex repl (a @ LF # b) = a @ LF # replace mermaidRegex repl b"
  by (rule fence_rule_across_newline) (simp_all add: mermaidRegex_first, simp add: mermaidRegex_def)

lemma code_rule_across_newline:
  "\<not> occurs (js ''```'') a \<Longrightarrow>
     replace codeRegex repl (a @ LF # b) = a @ LF # replace codeRegex repl b"
  by (rule fence_rule_across_newline) (simp_all add: codeRegex_first, simp add: codeRegex_def)

lemma renderMarkdown_without_fence:
  assumes "\<not> occurs (js ''```'') s"
  shows "renderMarkdown s = replace newlineRegex br_repl (emphasisRules (headingRules s))"
  unfolding renderMarkdown_rules
    mermaid_id_without_fence [OF rules_keep_fence_free [OF assms]]
    code_id_without_fence [OF rules_keep_fence_free [OF assms]] ..

lemma renderMarkdown_after_line:
  assumes "\<not> occurs (js ''```'') a"
  shows "renderMarkdown (a @ LF # b) = renderMarkdown a @ js ''<br>'' @ renderMarkdown b"
proof -
  note f = rules_keep_fence_free [OF assms]
  show ?thesis
    unfolding renderMarkdown_without_fence [OF assms] renderMarkdown_rules [of "a @ LF # b"]
      renderMarkdown_rules [of b]
      headingRules_across_newline emphasisRules_across_newline
      mermaid_rule_across_newline [OF f] code_rule_across_newline [OF f]
      newline_across_newline ..
qed

lemma mermaid_rule_skips_code_block:
  assumes "list_all dot lang" and "BT \<notin> set lang" and "lang \<noteq> js ''mermaid''"
      and "\<not> occurs (js ''```'') body"
  shows "replace mermaidRegex placeholder_repl (codeFence lang body) = codeFence lang body"
    and "replace mermaidRegex placeholder_repl (codeFence lang body @ LF # R)
           = codeFence lang body @ LF # replace mermaidRegex placeholder_repl R"
proof -
  let ?in = "lang @ LF # body"
  let ?M = "replace mermaidRegex placeholder_repl R"
  have ff: "\<not> occurs (js ''```'') ?in"
    using no_backtick_no_fence [OF assms(2)] assms(4) by (rule fence_free_across_newline)
  have hd_in: "\<not> prefix (BT # d) (?in @ r)" for d r
    using assms(2) by (cases lang) simp_all
  have m0: "mermaidRegex p (BT # BT # BT # ?in @ e) = None" for p e
    using not_mermaid_tag [OF assms(1,3), of "body @ e"]
    by (simp add: mermaidRegex_def)
  have m1: "mermaidRegex p (BT # BT # ?in @ e) = None" for p e
    using hd_in [of "js ''mermaid\<newline>''" e] by (simp add: mermaidRegex_def)
  have m2: "mermaidRegex p (BT # ?in @ e) = None" for p e
    using hd_in [of "js ''`mermaid\<newline>''" e] by (simp add: mermaidRegex_def)
  have m3: "gsub mermaidRegex placeholder_repl p (?in @ LF # e)
      = ?in @ LF # gsub mermaidRegex placeholder_repl (Some LF) e" for p e
    using ff by (intro gsub_skip_fence_free) (simp_all add: mermaidRegex_first)
  have m4: "gsub mermaidRegex placeholder_repl p (js ''```'') = js ''```''" for p
    by (simp add: mermaidRegex_def)
  have pv: "gsub mermaidRegex placeholder_repl q R = ?M" for q
    unfolding replace_def by (rule gsub_prev) (simp add: mermaidRegex_def)
  have m5: "gsub mermaidRegex placeholder_repl p (js ''```'' @ LF # R) = js ''```'' @ LF # ?M" for p
  proof -
    have a: "mermaidRegex q (BT # BT # BT # LF # R) = None"
      "mermaidRegex q (BT # BT # LF # R) = None"
      "mermaidRegex q (BT # LF # R) = None"
      "mermaidRegex q (LF # R) = None" for q
      by (simp_all add: mermaidRegex_def)
    show ?thesis using pv a by simp
  qed
  have open3: "gsub mermaidRegex placeholder_repl None (BT # BT # BT # ?in @ LF # e)
      = BT # BT # BT # gsub mermaidRegex placeholder_repl (Some BT) (?in @ LF # e)" for e
    using m0 [of _ "LF # e"] m1 [of _ "LF # e"] m2 [of _ "LF # e"] by simp
  have "gsub mermaidRegex placeholder_repl None (BT # BT # BT # ?in @ LF # js ''```'')
      = BT # BT # BT # ?in @ LF # js ''```''"
    unfolding open3 m3 m4 ..
  then show "replace mermaidRegex placeholder_repl (codeFence lang body) = codeFence lang body"
    by (simp add: replace_def codeFence_def)
  have "gsub mermaidRegex placeholder_repl None (BT # BT # BT # ?in @ LF # js ''```'' @ LF # R)
      = BT # BT # BT # ?in @ LF # js ''```'' @ LF # ?M"
    unfolding open3 m3 m5 ..
  then show "replace mermaidRegex placeholder_repl (codeFence lang body @ LF # R)
           = codeFence lang body @ LF # ?M"
    by (simp add: replace_def codeFence_def)
qed

lemma code_rule_on_code_block:
  assumes "list_all dot lang" and "\<not> occurs (js ''```'') body"
  shows "replace codeRegex pre_repl (codeFence lang body) = codeElement body"
    and "replace codeRegex pre_repl (codeFence lang body @ LF # R)
           = codeElement body @ LF # replace codeRegex pre_repl R"
proof -
  let ?blk = "codeFence lang body"
  let ?C = "replace codeRegex pre_repl R"
  have noc: "\<not> occurs closer body" using assms(2) occurs_closer_fence by blast
  have ne: "?blk \<noteq> []" by (simp add: codeFence_def)
  have ex: "expand pre_repl [lang, body] = codeElement body"
    by (simp add: pre_repl_def codeElement_def)
  have c0: "codeRegex None (?blk @ r) = Some (length ?blk, [lang, body])" for r
    using codeRegex_fence [OF assms(1) noc, of None r] by (simp add: closer_def codeFence_def)
  have "gsub codeRegex pre_repl None ?blk = expand pre_repl [lang, body]"
    using c0 [of "[]"] ne by (intro gsub_hit_all) (simp_all add: codeRegex_def)
  then show "replace codeRegex pre_repl ?blk = codeElement body"
    by (simp add: replace_def ex)
  have c1: "gsub codeRegex pre_repl q (LF # R) = LF # ?C" for q
  proof -
    have "gsub codeRegex pre_repl (Some LF) R = ?C"
      unfolding replace_def by (rule gsub_prev) (simp add: codeRegex_def)
    moreover have "codeRegex q (LF # R) = None" by (simp add: codeRegex_def)
    ultimately show ?thesis by simp
  qed
  have dr: "drop (length ?blk) (?blk @ LF # R) = LF # R" by simp
  have "gsub codeRegex pre_repl None (?blk @ LF # R)
      = expand pre_repl [lang, body]
        @ gsub codeRegex pre_repl (Some (last (take (length ?blk) (?blk @ LF # R))))
            (drop (length ?blk) (?blk @ LF # R))"
    using c0 [of "LF # R"] ne by (intro gsub_hit) simp_all
  then show "replace codeRegex pre_repl (?blk @ LF # R) = codeElement body @ LF # ?C"
    unfolding dr c1 ex by (simp add: replace_def)
qed

lemma renderMarkdown_code_block:
  assumes "list_all dot lang" and "BT \<notin> set lang"
      and "lang \<noteq> js ''mermaid''" and "\<not> occurs (js ''```'') body"
  shows "renderMarkdown (codeFence lang body) = codeElement (renderMarkdown body)"
    and "renderMarkdown (codeFence lang body @ LF # rest)
           = codeElement (renderMarkdown body) @ js ''<br>'' @ renderMarkdown rest"
proof -
  let ?B = "emphasisRules (headingRules body)"
  let ?l = "emphasisRules lang"
  have ff: "\<not> occurs (js ''```'') ?B" using assms(4) by (rule rules_keep_fence_free)
  have ld: "list_all dot ?l" using assms(1) by (rule emphasisRules_keeps_line)
  have lb: "BT \<notin> set ?l" using assms(2) by (intro emphasisRules_keeps_out) simp_all
  have lm: "?l \<noteq> js ''mermaid''" using assms(3) by (rule emphasisRules_not_mermaid)
  note l = line_rules_on_code_fence [OF assms(1)]
  note m = mermaid_rule_skips_code_block [OF ld lb lm ff]
  note c = code_rule_on_code_block [OF ld ff]
  have b: "renderMarkdown body = replace newlineRegex br_repl ?B"
    using assms(4) by (rule renderMarkdown_without_fence)
  show "renderMarkdown (codeFence lang body) = codeElement (renderMarkdown body)"
    unfolding renderMarkdown_rules [of "codeFence lang body"] l(1) m(1) c(1)
      newline_rule_on_code_element b ..
  have "replace newlineRegex br_repl (codeElement ?B @ LF # R)
      = codeElement (replace newlineRegex br_repl ?B)
          @ js ''<br>'' @ replace newlineRegex br_repl R" for R
    unfolding newline_across_newline newline_rule_on_code_element ..
  then show "renderMarkdown (codeFence lang body @ LF # rest)
           = codeElement (renderMarkdown body) @ js ''<br>'' @ renderMarkdown rest"
    unfolding renderMarkdown_rules [of "codeFence lang body @ LF # rest"]
      renderMarkdown_rules [of rest] l(2) m(2) c(2) b .
qed

subsection \<open>Line terminators\<close>

text \<open>
  A line separator, a paragraph separator and a carriage return end a line for \<^verbatim>\<open>.\<close>, \<^verbatim>\<open>^\<close>
  and \<^verbatim>\<open>$\<close> like a line feed does, and are not replaced by a line break.
\<close>

lemma line_separator_ends_heading:
  "renderMarkdown (js ''# a'' @ LS # js ''b'') = h1Element (js ''a'') @ LS # js ''b''"
  "renderMarkdown (js ''a'' @ PS # js ''# b'') = js ''a'' @ PS # h1Element (js ''b'')"
  "renderMarkdown (js ''# a'' @ CR # LF # js ''b'') = h1Element (js ''a'') @ CR # js ''<br>b''"
  unfolding h1Element_def by code_simp+

section \<open>Stale render results\<close>

text \<open>
  C1 (as stated: a render started at an older revision that completes after a newer one
  has committed is discarded). The component keeps no revision number and the
  continuation of \<^verbatim>\<open>extractMermaidDiagrams\<close> writes its result unconditionally. Two edits
  start the renders of diagram A and then of diagram B; B settles first and is committed,
  then A settles: the markup of A replaces that of B although the document holds B.
  Likewise, when the second edit removes the diagram, the markup is cleared at once, and
  the render of A that settles afterwards puts the markup of A back.
\<close>

theorem stale_render_overwrites_counterexample:
  "diagramHtml
     (run [EditorChange (Str (js ''```mermaid\<newline>A\<newline>```'')),
           EditorChange (Str (js ''```mermaid\<newline>B\<newline>```'')),
           RenderSettled 1 (Resolved (js ''svgB'')),
           RenderSettled 0 (Resolved (js ''svgA''))] (mounted [])) = (js ''svgA'')
   \<and> diagramHtml
     (run [EditorChange (Str (js ''```mermaid\<newline>A\<newline>```'')),
           EditorChange (Str (js ''```mermaid\<newline>B\<newline>```'')),
           RenderSettled 1 (Resolved (js ''svgB''))] (mounted [])) = (js ''svgB'')
   \<and> renderCalls
     (run [EditorChange (Str (js ''```mermaid\<newline>A\<newline>```'')),
           EditorChange (Str (js ''```mermaid\<newline>B\<newline>```''))] (mounted [])) = [(js ''A''), (js ''B'')]
   \<and> content
     (run [EditorChange (Str (js ''```mermaid\<newline>A\<newline>```'')),
           EditorChange (Str (js ''```mermaid\<newline>B\<newline>```'')),
           RenderSettled 1 (Resolved (js ''svgB'')),
           RenderSettled 0 (Resolved (js ''svgA''))] (mounted []))
       = Str (js ''```mermaid\<newline>B\<newline>```'')
   \<and> diagramHtml
     (run [EditorChange (Str (js ''```mermaid\<newline>A\<newline>```'')),
           EditorChange (Str (js ''no diagram''))] (mounted [])) = []
   \<and> diagramHtml
     (run [EditorChange (Str (js ''```mermaid\<newline>A\<newline>```'')),
           EditorChange (Str (js ''no diagram'')),
           RenderSettled 0 (Resolved (js ''svgA''))] (mounted [])) = (js ''svgA'')"
  by code_simp

text \<open>
  C1 (amended): every settlement of a pending render is applied when it arrives. After
  any run of settlements of distinct pending renders, the diagram markup is the one
  written by the settlement that came last, whichever render was started last: the last
  write wins by completion order.
\<close>

theorem last_settlement_wins:
  assumes "kos \<noteq> []" and "distinct (map fst kos)" and "set (map fst kos) \<subseteq> set (pending s)"
  shows "diagramHtml (run (settlements kos) s) = markup (snd (last kos))"
  using assms by (rule run_settlements_last)

theorem last_settlement_wins_witness:
  "diagramHtml
     (run (settlements [(1, Resolved (js ''svgB'')), (0, Resolved (js ''svgA''))])
        (run [EditorChange (Str (js ''```mermaid\<newline>A\<newline>```'')),
              EditorChange (Str (js ''```mermaid\<newline>B\<newline>```''))] (mounted []))) = (js ''svgA'')"
proof -
  let ?s = "run [EditorChange (Str (js ''```mermaid\<newline>A\<newline>```'')),
              EditorChange (Str (js ''```mermaid\<newline>B\<newline>```''))] (mounted [])"
  let ?kos = "[(1::nat, Resolved (js ''svgB'')), (0, Resolved (js ''svgA''))]"
  have p: "pending ?s = [0, 1]" by code_simp
  have a: "?kos \<noteq> []" by simp
  have b: "distinct (map fst ?kos)" by simp
  have c: "set (map fst ?kos) \<subseteq> set (pending ?s)" unfolding p by simp
  show ?thesis using last_settlement_wins [OF a b c] by simp
qed

section \<open>The markdown projector\<close>

text \<open>
  C4 (as stated: headings, then fenced code blocks, then diagram fences, then inline
  emphasis, first match wins, and the body of a fenced code block is reproduced verbatim).
  The bold rule and the heading rule have already rewritten the whole text when the fence
  rule captures the body: the code element holds the markup they produced, not the body
  as it was written.
\<close>

theorem code_body_not_verbatim_counterexample:
  \<open>renderMarkdown (js ''```js\<newline>**a**\<newline>```'')
      = (js ''<pre class="bg-muted p-4 rounded-lg overflow-x-auto"><code><strong>a</strong></code></pre>'')
    \<and> renderMarkdown (js ''```js\<newline># a\<newline>```'')
      = (js ''<pre class="bg-muted p-4 rounded-lg overflow-x-auto"><code><h1 class="text-3xl font-bold mb-4">a</h1></code></pre>'')\<close>
  by code_simp

text \<open>
  C4 (amended): no rule takes precedence by matching first; the heading and emphasis
  rules rewrite every line of the text, also inside fenced blocks, before the fence rules
  read it, and line feeds are replaced last.
  \<^item> A fenced code block whose language tag is a single line without backtick and is not
    the diagram tag, and whose body (any number of lines) holds no three backticks in a
    row, becomes a code element around the projection of the body: the body with its
    headings, bold and italic spans marked up and its line feeds as line breaks, not the
    body as written.
  \<^item> A fence with the diagram tag whose body, after the heading and emphasis rules, holds
    no closing fence becomes the diagram placeholder and not a code element; a body
    without three backticks in a row is such a body.
  \<^item> Both hold for the block as the whole text and for the block on lines of its own after
    a text without three backticks in a row: the projection is then the projection of the
    text before, a line break, the element, a line break, and the projection of the text
    after.
  \<^item> Bold is applied before italic and both take the longest span of a line: a text of
    one line that begins and ends with two asterisks becomes one strong element around
    the text in between, to which the italic rule has been applied; a text of one line
    that begins and ends with an asterisk and holds no two asterisks in a row becomes one
    em element around the text in between.
  \<^item> A line feed after a text without three backticks in a row becomes a line break
    between the projections of the text before and of the text after.
\<close>

theorem rules_apply_in_sequence:
  assumes "list_all dot lang" and "BT \<notin> set lang" and "lang \<noteq> js ''mermaid''"
      and "\<not> occurs (js ''```'') body"
      and "\<not> occurs closer (emphasisRules (headingRules d))"
      and "\<not> occurs (js ''```'') pre"
      and "list_all dot x"
      and "list_all dot y" and "\<not> occurs (js ''**'') (js ''*'' @ y @ js ''*'')"
  shows "renderMarkdown (codeFence lang body) = codeElement (renderMarkdown body)
    \<and> renderMarkdown (pre @ js ''\<newline>'' @ codeFence lang body @ js ''\<newline>'' @ rest)
        = renderMarkdown pre @ js ''<br>'' @ codeElement (renderMarkdown body)
            @ js ''<br>'' @ renderMarkdown rest
    \<and> renderMarkdown (fenced d) = placeholderElement
    \<and> renderMarkdown (pre @ js ''\<newline>'' @ fenced d @ js ''\<newline>'' @ rest)
        = renderMarkdown pre @ js ''<br>'' @ placeholderElement @ js ''<br>'' @ renderMarkdown rest
    \<and> renderMarkdown (js ''**'' @ x @ js ''**'')
        = js ''<strong>'' @ replace (emphasisRegex (js ''*'')) em_repl x @ js ''</strong>''
    \<and> renderMarkdown (js ''*'' @ y @ js ''*'') = js ''<em>'' @ y @ js ''</em>''
    \<and> renderMarkdown (pre @ js ''\<newline>'' @ rest)
        = renderMarkdown pre @ js ''<br>'' @ renderMarkdown rest
    \<and> (\<not> occurs (js ''```'') s \<longrightarrow> \<not> occurs closer (emphasisRules (headingRules s)))"
proof -
  note c = renderMarkdown_code_block [OF assms(1,2,3,4)]
  note m = renderMarkdown_diagram_fence [OF assms(5)]
  have ctx: "renderMarkdown (pre @ js ''\<newline>'' @ s) = renderMarkdown pre @ js ''<br>'' @ renderMarkdown s"
    for s
    using renderMarkdown_after_line [OF assms(6), of s] by simp
  have "renderMarkdown (pre @ js ''\<newline>'' @ codeFence lang body @ js ''\<newline>'' @ rest)
        = renderMarkdown pre @ js ''<br>'' @ codeElement (renderMarkdown body)
            @ js ''<br>'' @ renderMarkdown rest"
    using ctx [of "codeFence lang body @ js ''\<newline>'' @ rest"] c(2) [of rest] by simp
  moreover have "renderMarkdown (pre @ js ''\<newline>'' @ fenced d @ js ''\<newline>'' @ rest)
        = renderMarkdown pre @ js ''<br>'' @ placeholderElement @ js ''<br>'' @ renderMarkdown rest"
    using ctx [of "fenced d @ js ''\<newline>'' @ rest"] m(2) [of rest] by simp
  moreover have "\<not> occurs (js ''```'') s \<longrightarrow> \<not> occurs closer (emphasisRules (headingRules s))"
    using rules_keep_fence_free [of s] occurs_closer_fence by blast
  ultimately show ?thesis
    using c(1) m(1) bold_line [OF assms(7)] italic_line [OF assms(8,9)] ctx [of rest] by blast
qed

theorem rules_apply_in_sequence_witness:
  \<open>renderMarkdown (js ''see `intro`\<newline>```js\<newline># a\<newline>**x = `1`**\<newline>```\<newline>more **text**'')
     = js ''see `intro`<br><pre class="bg-muted p-4 rounded-lg overflow-x-auto"><code><h1 class="text-3xl font-bold mb-4">a</h1><br><strong>x = `1`</strong></code></pre><br>more <strong>text</strong>''
   \<and> renderMarkdown (js ''see `intro`\<newline>```mermaid\<newline>graph TB\<newline>A-->B\<newline>```\<newline>more **text**'')
     = js ''see `intro`<br><div class="diagram-placeholder">Diagram rendered above</div><br>more <strong>text</strong>''
   \<and> renderMarkdown (js ''**a** and **b**'') = js ''<strong>a<em>* and *</em>b</strong>''
   \<and> renderMarkdown (js ''*a*b*'') = js ''<em>a*b</em>''\<close>
proof -
  have l: "list_all dot (js ''js'')" "BT \<notin> set (js ''js'')" "js ''js'' \<noteq> js ''mermaid''"
    by (simp_all add: dot_def lineTerminator_def)
  have b: "\<not> occurs (js ''```'') (js ''# a\<newline>**x = `1`**'')" by (simp add: occurs_def)
  have d: "\<not> occurs closer (emphasisRules (headingRules (js ''graph TB\<newline>A-->B'')))"
    by code_simp
  have p: "\<not> occurs (js ''```'') (js ''see `intro`'')" by (simp add: occurs_def)
  have x: "list_all dot (js ''a** and **b'')" by (simp add: dot_def lineTerminator_def)
  have y: "list_all dot (js ''a*b'')" "\<not> occurs (js ''**'') (js ''*'' @ js ''a*b'' @ js ''*'')"
    by (simp_all add: dot_def lineTerminator_def occurs_def)
  have rp: "renderMarkdown (js ''see `intro`'') = js ''see `intro`''" by code_simp
  have rr: "renderMarkdown (js ''more **text**'') = js ''more <strong>text</strong>''"
    by code_simp
  have rb: \<open>renderMarkdown (js ''# a\<newline>**x = `1`**'')
      = js ''<h1 class="text-3xl font-bold mb-4">a</h1><br><strong>x = `1`</strong>''\<close>
    by code_simp
  have ri: "replace (emphasisRegex (js ''*'')) em_repl (js ''a** and **b'')
      = js ''a<em>* and *</em>b''"
    by code_simp
  show ?thesis
    using rules_apply_in_sequence [OF l b d p x y, of "js ''more **text**''"]
    unfolding rp rr rb ri
    by (simp add: codeFence_def codeElement_def fenced_def opener_def closer_def
          placeholderElement_def)
qed

text \<open>
  C7 (as stated: every line beginning with k heading markers gives a heading of level k,
  for k from 1 to 6). There are rules for one, two and three markers only: a line with
  four, five or six markers gets no heading element. A heading line inside a diagram
  fence gives no heading either: the fence rule replaces the whole block. And a heading
  text that opens a fence loses the end of its element to the code element.
\<close>

theorem heading_levels_four_to_six_counterexample:
  \<open>renderMarkdown (js ''#### Title'') = (js ''#### Title'')
   \<and> renderMarkdown (js ''##### Title'') = (js ''##### Title'')
   \<and> renderMarkdown (js ''###### Title'') = (js ''###### Title'')
   \<and> renderMarkdown (js ''```mermaid\<newline># Title\<newline>```'')
       = js ''<div class="diagram-placeholder">Diagram rendered above</div>''
   \<and> renderMarkdown (js ''# a ```js\<newline>x\<newline>```'')
       = js ''<h1 class="text-3xl font-bold mb-4">a <pre class="bg-muted p-4 rounded-lg overflow-x-auto"><code>x</code></pre>''\<close>
  by code_simp

text \<open>
  C7 (amended): for k from 1 to 3, a line of k heading markers, a space and a heading
  text (any text without line terminator) is projected to the heading element of level k
  around the heading text after the bold and italic rules, which is the heading text
  itself when it has no asterisk. This holds when the line is the whole text and when it
  is the last line after a text without three backticks in a row; and, for a heading text
  without three backticks in a row, when the line is the first line and when it stands
  between a text without three backticks in a row and any text after it. The text before
  and the text after are projected on their own, with line breaks in between. A whole
  text of four, five or six markers, a space and a text without line terminator gets no
  heading element: it is projected to the markers and the space as written, followed by
  the text after the bold and italic rules.
\<close>

theorem heading_levels_one_to_three:
  assumes "list_all dot t" and "list_all dot u" and "\<not> occurs (js ''```'') u"
      and "\<not> occurs (js ''```'') pre"
  shows "renderMarkdown (js ''# '' @ t) = h1Element (emphasisRules t)
    \<and> renderMarkdown (js ''## '' @ t) = h2Element (emphasisRules t)
    \<and> renderMarkdown (js ''### '' @ t) = h3Element (emphasisRules t)
    \<and> renderMarkdown (js ''# '' @ u @ js ''\<newline>'' @ rest)
        = h1Element (emphasisRules u) @ js ''<br>'' @ renderMarkdown rest
    \<and> renderMarkdown (js ''## '' @ u @ js ''\<newline>'' @ rest)
        = h2Element (emphasisRules u) @ js ''<br>'' @ renderMarkdown rest
    \<and> renderMarkdown (js ''### '' @ u @ js ''\<newline>'' @ rest)
        = h3Element (emphasisRules u) @ js ''<br>'' @ renderMarkdown rest
    \<and> renderMarkdown (pre @ js ''\<newline># '' @ u @ js ''\<newline>'' @ rest)
        = renderMarkdown pre @ js ''<br>'' @ h1Element (emphasisRules u)
            @ js ''<br>'' @ renderMarkdown rest
    \<and> renderMarkdown (pre @ js ''\<newline>## '' @ u @ js ''\<newline>'' @ rest)
        = renderMarkdown pre @ js ''<br>'' @ h2Element (emphasisRules u)
            @ js ''<br>'' @ renderMarkdown rest
    \<and> renderMarkdown (pre @ js ''\<newline>### '' @ u @ js ''\<newline>'' @ rest)
        = renderMarkdown pre @ js ''<br>'' @ h3Element (emphasisRules u)
            @ js ''<br>'' @ renderMarkdown rest
    \<and> renderMarkdown (pre @ js ''\<newline># '' @ t)
        = renderMarkdown pre @ js ''<br>'' @ h1Element (emphasisRules t)
    \<and> renderMarkdown (pre @ js ''\<newline>## '' @ t)
        = renderMarkdown pre @ js ''<br>'' @ h2Element (emphasisRules t)
    \<and> renderMarkdown (pre @ js ''\<newline>### '' @ t)
        = renderMarkdown pre @ js ''<br>'' @ h3Element (emphasisRules t)
    \<and> renderMarkdown (js ''#### '' @ t) = js ''#### '' @ emphasisRules t
    \<and> renderMarkdown (js ''##### '' @ t) = js ''##### '' @ emphasisRules t
    \<and> renderMarkdown (js ''###### '' @ t) = js ''###### '' @ emphasisRules t
    \<and> (STAR \<notin> set t \<longrightarrow> emphasisRules t = t)"
proof -
  note one = heading_line_alone [OF assms(1)]
  note oneu = heading_line_alone [OF assms(2)]
  have ctx: "renderMarkdown (pre @ js ''\<newline>'' @ s) = renderMarkdown pre @ js ''<br>'' @ renderMarkdown s"
    for s
    using renderMarkdown_after_line [OF assms(4), of s] by simp
  have first: "renderMarkdown ((m @ u) @ js ''\<newline>'' @ rest)
      = renderMarkdown (m @ u) @ js ''<br>'' @ renderMarkdown rest" if "BT \<notin> set m" for m
    using renderMarkdown_after_line [of "m @ u" rest] fence_free_after_tag [OF that assms(3)]
    by simp
  have f1: "renderMarkdown (js ''# '' @ u @ js ''\<newline>'' @ rest)
      = h1Element (emphasisRules u) @ js ''<br>'' @ renderMarkdown rest"
    using first [of "js ''# ''"] oneu(1) by simp
  have f2: "renderMarkdown (js ''## '' @ u @ js ''\<newline>'' @ rest)
      = h2Element (emphasisRules u) @ js ''<br>'' @ renderMarkdown rest"
    using first [of "js ''## ''"] oneu(2) by simp
  have f3: "renderMarkdown (js ''### '' @ u @ js ''\<newline>'' @ rest)
      = h3Element (emphasisRules u) @ js ''<br>'' @ renderMarkdown rest"
    using first [of "js ''### ''"] oneu(3) by simp
  have m1: "renderMarkdown (pre @ js ''\<newline># '' @ u @ js ''\<newline>'' @ rest)
        = renderMarkdown pre @ js ''<br>'' @ h1Element (emphasisRules u)
            @ js ''<br>'' @ renderMarkdown rest"
    using ctx [of "js ''# '' @ u @ js ''\<newline>'' @ rest"] f1 by simp
  have m2: "renderMarkdown (pre @ js ''\<newline>## '' @ u @ js ''\<newline>'' @ rest)
        = renderMarkdown pre @ js ''<br>'' @ h2Element (emphasisRules u)
            @ js ''<br>'' @ renderMarkdown rest"
    using ctx [of "js ''## '' @ u @ js ''\<newline>'' @ rest"] f2 by simp
  have m3: "renderMarkdown (pre @ js ''\<newline>### '' @ u @ js ''\<newline>'' @ rest)
        = renderMarkdown pre @ js ''<br>'' @ h3Element (emphasisRules u)
            @ js ''<br>'' @ renderMarkdown rest"
    using ctx [of "js ''### '' @ u @ js ''\<newline>'' @ rest"] f3 by simp
  have l1: "renderMarkdown (pre @ js ''\<newline># '' @ t)
        = renderMarkdown pre @ js ''<br>'' @ h1Element (emphasisRules t)"
    using ctx [of "js ''# '' @ t"] one(1) by simp
  have l2: "renderMarkdown (pre @ js ''\<newline>## '' @ t)
        = renderMarkdown pre @ js ''<br>'' @ h2Element (emphasisRules t)"
    using ctx [of "js ''## '' @ t"] one(2) by simp
  have l3: "renderMarkdown (pre @ js ''\<newline>### '' @ t)
        = renderMarkdown pre @ js ''<br>'' @ h3Element (emphasisRules t)"
    using ctx [of "js ''### '' @ t"] one(3) by simp
  have e: "STAR \<notin> set t \<longrightarrow> emphasisRules t = t"
    by (simp add: emphasisRules_id_without_star)
  show ?thesis
    using one f1 f2 f3 m1 m2 m3 l1 l2 l3 e by blast
qed

theorem heading_levels_one_to_three_witness:
  \<open>renderMarkdown (js ''## Context'') = js ''<h2 class="text-2xl font-semibold mb-3">Context</h2>''
   \<and> renderMarkdown (js ''# **Big** ```x'')
     = js ''<h1 class="text-3xl font-bold mb-4"><strong>Big</strong> ```x</h1>''
   \<and> renderMarkdown (js ''#### **Big** ```x'') = js ''#### <strong>Big</strong> ```x''
   \<and> renderMarkdown (js ''# Title\<newline>see `intro`\<newline>### *Status* of `x`\<newline>Proposed'')
     = js ''<h1 class="text-3xl font-bold mb-4">Title</h1><br>see `intro`<br><h3 class="text-xl font-medium mb-2"><em>Status</em> of `x`</h3><br>Proposed''\<close>
proof -
  have c: "list_all dot (js ''Context'')" "STAR \<notin> set (js ''Context'')"
    by (simp_all add: dot_def lineTerminator_def)
  have t: "list_all dot (js ''**Big** ```x'')"
    by (simp add: dot_def lineTerminator_def)
  have s: "list_all dot (js ''*Status* of `x`'')" "\<not> occurs (js ''```'') (js ''*Status* of `x`'')"
    by (simp_all add: dot_def lineTerminator_def occurs_def)
  have p: "\<not> occurs (js ''```'') (js ''# Title\<newline>see `intro`'')" by (simp add: occurs_def)
  have rp: \<open>renderMarkdown (js ''# Title\<newline>see `intro`'')
      = js ''<h1 class="text-3xl font-bold mb-4">Title</h1><br>see `intro`''\<close>
    by code_simp
  have rr: "renderMarkdown (js ''Proposed'') = js ''Proposed''" by code_simp
  have et: "emphasisRules (js ''**Big** ```x'') = js ''<strong>Big</strong> ```x''" by code_simp
  have es: "emphasisRules (js ''*Status* of `x`'') = js ''<em>Status</em> of `x`''" by code_simp
  have a: "renderMarkdown (js ''## '' @ js ''Context'') = h2Element (js ''Context'')"
    using heading_levels_one_to_three [OF c(1) s p] c(2) by metis
  have b: "renderMarkdown (js ''# '' @ js ''**Big** ```x'') = h1Element (emphasisRules (js ''**Big** ```x''))"
    "renderMarkdown (js ''#### '' @ js ''**Big** ```x'') = js ''#### '' @ emphasisRules (js ''**Big** ```x'')"
    "renderMarkdown (js ''# Title\<newline>see `intro`'' @ js ''\<newline>### '' @ js ''*Status* of `x`'' @ js ''\<newline>'' @ js ''Proposed'')
        = renderMarkdown (js ''# Title\<newline>see `intro`'') @ js ''<br>''
            @ h3Element (emphasisRules (js ''*Status* of `x`'')) @ js ''<br>''
            @ renderMarkdown (js ''Proposed'')"
    using heading_levels_one_to_three [OF t s p, of "js ''Proposed''"] by blast+
  show ?thesis
    using a b unfolding rp rr et es by (simp add: h1Element_def h2Element_def h3Element_def)
qed

section \<open>The diagram extractor\<close>

text \<open>
  C5: in every text the matches of the diagram expression come in document order with
  spans that do not overlap, and each match is a fenced region: the text of the document
  between the offsets of its span is the opening marker, group 1 and the closing marker.
  A document that is N fenced diagram blocks in turn with gaps, where no gap and not the
  rest holds an opening marker and no body holds a closing marker, has exactly N matches,
  and match number k has the body of block number k as its group 1.
\<close>

theorem diagram_blocks_in_document_order:
  "list_all (fence_at 0 text) (mermaidMatches text)
   \<and> sorted_wrt (\<lambda>a b. spanEnd a \<le> spanStart b) (mermaidMatches text)
   \<and> (list_all (\<lambda>(gap, body). \<not> occurs opener gap \<and> \<not> occurs closer body) fs
        \<and> \<not> occurs opener rest \<longrightarrow>
          mermaidMatches (document fs rest) = blocks 0 fs
          \<and> length (mermaidMatches (document fs rest)) = length fs
          \<and> map group1 (mermaidMatches (document fs rest)) = map snd fs)"
proof -
  have u: "list_all (fence_at 0 text) (mermaidMatches text)
     \<and> sorted_wrt (\<lambda>a b. spanEnd a \<le> spanStart b) (mermaidMatches text)"
    unfolding mermaidMatches_def matchAll_def by (rule matchAllFrom_mermaid_any_text)
  have "mermaidMatches (document fs rest) = blocks 0 fs
          \<and> length (mermaidMatches (document fs rest)) = length fs
          \<and> map group1 (mermaidMatches (document fs rest)) = map snd fs"
    if "list_all (\<lambda>(gap, body). \<not> occurs opener gap \<and> \<not> occurs closer body) fs"
      and "\<not> occurs opener rest"
  proof -
    have e: "mermaidMatches (document fs rest) = blocks 0 fs"
      unfolding mermaidMatches_def matchAll_def
      using that by (rule matchAllFrom_document)
    show ?thesis
      unfolding e using length_blocks [of 0 fs] group1_blocks [of 0 fs] by simp
  qed
  then show ?thesis using u by blast
qed

theorem diagram_blocks_in_document_order_witness:
  "mermaidMatches (js ''# Title\<newline>\<newline>```mermaid\<newline>graph TB\<newline>A-->B\<newline>```\<newline>text\<newline>```mermaid\<newline>\<newline>```\<newline>'')
     = [\<lparr>index = 9, whole = (js ''```mermaid\<newline>graph TB\<newline>A-->B\<newline>```''), captures = [(js ''graph TB\<newline>A-->B'')]\<rparr>,
        \<lparr>index = 44, whole = (js ''```mermaid\<newline>\<newline>```''), captures = [[]]\<rparr>]"
proof -
  let ?fs = "[((js ''# Title\<newline>\<newline>''), (js ''graph TB\<newline>A-->B'')), ((js ''\<newline>text\<newline>''), [])]"
  have a: "list_all (\<lambda>(gap, body). \<not> occurs opener gap \<and> \<not> occurs closer body) ?fs"
    by (simp add: occurs_def opener_def closer_def)
  have b: "\<not> occurs opener (js ''\<newline>'')"
    by (simp add: occurs_def opener_def)
  have d: "document ?fs (js ''\<newline>'') = (js ''# Title\<newline>\<newline>```mermaid\<newline>graph TB\<newline>A-->B\<newline>```\<newline>text\<newline>```mermaid\<newline>\<newline>```\<newline>'')"
    by (simp add: fenced_def opener_def closer_def)
  have "mermaidMatches (document ?fs (js ''\<newline>'')) = blocks 0 ?fs"
    using diagram_blocks_in_document_order [of "[]" ?fs "(js ''\<newline>'')"] a b by blast
  then show ?thesis unfolding d by (simp add: fenced_def opener_def closer_def)
qed

section \<open>Empty diagram source\<close>

text \<open>
  C2 (as stated: an empty diagram source gives a failure value and the rendering service
  is not called). The fence with an empty body matches the expression with an empty
  group 1, and the effect passes it to \<^verbatim>\<open>mermaid.render\<close> like any other source: the
  call is made and nothing is written to the diagram markup before it settles.
\<close>

theorem empty_source_is_rendered_counterexample:
  "renderCalls (step (EditorChange (Str (js ''```mermaid\<newline>\<newline>```''))) (mounted [])) = [[]]
   \<and> pending (step (EditorChange (Str (js ''```mermaid\<newline>\<newline>```''))) (mounted [])) = [0]
   \<and> diagramHtml (step (EditorChange (Str (js ''```mermaid\<newline>\<newline>```''))) (mounted [])) = []
   \<and> renderCalls (mounted []) = []"
  by code_simp

text \<open>
  C2 (amended): when the first diagram block of the new text has an empty source, the
  edit calls the rendering service with the empty string and leaves the diagram markup as
  it was; the markup then becomes what the service answers: its svg, or the fixed error
  paragraph when the call fails.
\<close>

theorem empty_source_goes_to_the_service:
  assumes "mermaidMatches text = m # ms" and "group1 m = []" and "content s \<noteq> Str text"
  shows "renderCalls (step (EditorChange (Str text)) s) = renderCalls s @ [[]]
   \<and> length (renderCalls s) \<in> set (pending (step (EditorChange (Str text)) s))
   \<and> diagramHtml (step (EditorChange (Str text)) s) = diagramHtml s
   \<and> diagramHtml (step (RenderSettled (length (renderCalls s)) (Resolved svg))
                     (step (EditorChange (Str text)) s)) = svg
   \<and> diagramHtml (step (RenderSettled (length (renderCalls s)) Rejected)
                     (step (EditorChange (Str text)) s)) = errorHtml"
proof -
  have ne: "text \<noteq> []"
    using assms(1) by (auto simp: mermaidMatches_def matchAll_def mermaidRegex_def)
  have e: "step (EditorChange (Str text)) s =
      s\<lparr>content := Str text, renderCalls := renderCalls s @ [[]],
        pending := pending s @ [length (renderCalls s)]\<rparr>"
    using assms ne
    by (simp add: handleEditorChange_def js_or_def Let_def extractMermaidDiagrams_def)
  show ?thesis unfolding e by simp
qed

theorem empty_source_goes_to_the_service_witness:
  "renderCalls (step (EditorChange (Str (js ''```mermaid\<newline>\<newline>```''))) (mounted [])) = [[]]
   \<and> diagramHtml (step (RenderSettled 0 Rejected)
        (step (EditorChange (Str (js ''```mermaid\<newline>\<newline>```''))) (mounted []))) = errorHtml"
proof -
  let ?d = "(js ''```mermaid\<newline>\<newline>```'')"
  have a: "mermaidMatches ?d = [\<lparr>index = 0, whole = ?d, captures = [[]]\<rparr>]" by code_simp
  have b: "group1 \<lparr>index = 0, whole = ?d, captures = [[]]\<rparr> = []" by simp
  have c: "content (mounted []) \<noteq> Str ?d" by (simp add: mounted_def)
  have d: "renderCalls (mounted []) = []" by code_simp
  show ?thesis
    using empty_source_goes_to_the_service [OF a b c] unfolding d by simp
qed

section \<open>Render failures\<close>

text \<open>
  C3: when the rendering call of a pending render fails, the component stores the error
  paragraph as diagram markup, a value that is not empty and that the diagram pane
  shows; the document text, the preview and the outline are what they were.
\<close>

theorem render_failure_is_a_value:
  assumes "k \<in> set (pending s)"
  shows "diagramHtml (step (RenderSettled k Rejected) s) = errorHtml
   \<and> diagramPane (step (RenderSettled k Rejected) s) = DiagramMarkup errorHtml
   \<and> errorHtml \<noteq> []
   \<and> content (step (RenderSettled k Rejected) s) = content s
   \<and> previewPane (step (RenderSettled k Rejected) s) = previewPane s
   \<and> outlinePane (step (RenderSettled k Rejected) s) = outlinePane s"
  using assms errorHtml_nonempty
  by (simp add: previewPane_def diagramPane_def outlinePane_def)

theorem render_failure_is_a_value_witness:
  "0 \<in> set (pending (mounted (js ''```mermaid\<newline>A\<newline>```'')))
   \<and> diagramHtml (step (RenderSettled 0 Rejected) (mounted (js ''```mermaid\<newline>A\<newline>```'')))
       = errorHtml
   \<and> previewPane (step (RenderSettled 0 Rejected) (mounted (js ''```mermaid\<newline>A\<newline>```'')))
       = previewPane (mounted (js ''```mermaid\<newline>A\<newline>```''))"
proof -
  have p: "0 \<in> set (pending (mounted (js ''```mermaid\<newline>A\<newline>```'')))"
    by code_simp
  show ?thesis
    using p render_failure_is_a_value [OF p] by simp
qed

section \<open>Which block is rendered\<close>

text \<open>
  C6: an edit that changes the document text calls the rendering service once more, with
  the source of the first diagram block of the new text when there is one, whether or not
  that source was rendered before, and the svg this call resolves with becomes the
  diagram markup; mounting the component does the same for the initial text. No other
  block is passed to the service, and neither a tab switch nor a settlement calls it.
\<close>

theorem only_block_zero_is_rendered:
  "(js_or v (Str []) = Str text \<and> content s \<noteq> Str text \<longrightarrow>
      renderCalls (step (EditorChange v) s)
        = renderCalls s @ map group1 (take 1 (mermaidMatches text))
      \<and> (mermaidMatches text \<noteq> [] \<longrightarrow>
            diagramHtml (step (RenderSettled (length (renderCalls s)) (Resolved svg))
                           (step (EditorChange v) s)) = svg))
   \<and> renderCalls (mounted text0) = map group1 (take 1 (mermaidMatches text0))
   \<and> renderCalls (step (TabChange t) s) = renderCalls s
   \<and> renderCalls (step (RenderSettled k out) s) = renderCalls s"
proof -
  have "diagramHtml (step (RenderSettled (length (renderCalls s)) (Resolved svg))
                           (step (EditorChange v) s)) = svg"
    if "js_or v (Str []) = Str text" "content s \<noteq> Str text" "mermaidMatches text \<noteq> []"
  proof -
    have "length (renderCalls s) \<in> set (pending (step (EditorChange v) s))"
      using pending_edit [OF that] by simp
    then show ?thesis using step_settled_pending by simp
  qed
  then show ?thesis
    using renderCalls_edit [of v "text" s] renderCalls_mounted [of text0]
    by (simp add: renderCalls_settle)
qed

theorem only_block_zero_is_rendered_witness:
  "renderCalls
        (step (EditorChange (Str (js ''```mermaid\<newline>A\<newline>```\<newline>```mermaid\<newline>B\<newline>```'')))
           (mounted (js ''```mermaid\<newline>A\<newline>```''))) = [(js ''A''), (js ''A'')]
   \<and> map group1 (mermaidMatches (js ''```mermaid\<newline>A\<newline>```\<newline>```mermaid\<newline>B\<newline>```''))
      = [(js ''A''), (js ''B'')]
   \<and> diagramHtml
        (step (RenderSettled 1 (Resolved (js ''svg'')))
          (step (EditorChange (Str (js ''```mermaid\<newline>A\<newline>```\<newline>```mermaid\<newline>B\<newline>```'')))
             (mounted (js ''```mermaid\<newline>A\<newline>```'')))) = (js ''svg'')"
proof -
  let ?d = "(js ''```mermaid\<newline>A\<newline>```\<newline>```mermaid\<newline>B\<newline>```'')"
  let ?s = "mounted (js ''```mermaid\<newline>A\<newline>```'')"
  have a: "js_or (Str ?d) (Str []) = Str ?d" by (simp add: js_or_def)
  have b: "content ?s \<noteq> Str ?d" by (simp add: mounted_def)
  have c: "map group1 (mermaidMatches ?d) = [(js ''A''), (js ''B'')]" by code_simp
  have d: "renderCalls ?s = [(js ''A'')]" by code_simp
  have ne: "mermaidMatches ?d \<noteq> []" using c by auto
  note t = only_block_zero_is_rendered [of "Str ?d" ?d ?s "(js ''svg'')"]
  have "renderCalls (step (EditorChange (Str ?d)) ?s)
          = renderCalls ?s @ map group1 (take 1 (mermaidMatches ?d))"
    using t a b by blast
  then have e: "renderCalls (step (EditorChange (Str ?d)) ?s) = [(js ''A''), (js ''A'')]"
    unfolding d using c by (simp add: take_map [symmetric])
  have "diagramHtml (step (RenderSettled (length (renderCalls ?s)) (Resolved (js ''svg'')))
                           (step (EditorChange (Str ?d)) ?s)) = (js ''svg'')"
    using t a b ne by blast
  then have f: "diagramHtml (step (RenderSettled 1 (Resolved (js ''svg'')))
                           (step (EditorChange (Str ?d)) ?s)) = (js ''svg'')"
    unfolding d by simp
  show ?thesis using c e f by blast
qed

section \<open>The outline\<close>

text \<open>
  C8 (as stated: the outline is built from the heading markers of the text, and headings
  of levels 1, 2, 3, 2, 1 give two root nodes). The outline pane is a literal list: for a
  document with exactly those five headings it still shows its ten fixed entries, one of
  them at the outermost level, and their labels are not the headings of the document.
\<close>

theorem outline_is_not_built_from_headings_counterexample:
  "map fst (outlinePane (step (EditorChange (Str (js ''# A\<newline>## B\<newline>### C\<newline>## D\<newline># E''))) (mounted [])))
      = [0, 4, 4, 4, 8, 8, 8, 8, 4, 4]
   \<and> length (outlinePane (step (EditorChange (Str (js ''# A\<newline>## B\<newline>### C\<newline>## D\<newline># E''))) (mounted [])))
      = 10
   \<and> map snd (outlinePane (step (EditorChange (Str (js ''# A\<newline>## B\<newline>### C\<newline>## D\<newline># E''))) (mounted [])))
      \<noteq> [(js ''A''), (js ''B''), (js ''C''), (js ''D''), (js ''E'')]"
  by (simp add: outlinePane_def)

text \<open>
  C8 (amended): the outline pane shows the same ten entries, with the same indentation,
  in every state the component reaches, whatever the document text is.
\<close>

theorem outline_is_a_fixed_list:
  "outlinePane (run es s) = outlinePane (mounted [])
   \<and> map fst (outlinePane (run es s)) = [0, 4, 4, 4, 8, 8, 8, 8, 4, 4]
   \<and> map snd (outlinePane (run es s)) =
       [(js ''Solution Architecture Document''), (js ''Context''), (js ''Requirements''),
        (js ''Architecture Decision Record''), (js ''Status''), (js ''Context''), (js ''Decision''),
        (js ''Consequences''), (js ''System Architecture''), (js ''Implementation Plan'')]"
  by (simp add: outlinePane_def)

section \<open>Switching tabs\<close>

text \<open>
  C9: a tab switch changes the active tab and nothing else: the document text, the
  diagram markup, the calls made to the rendering service, the pending renders and the
  three panes are the same before and after.
\<close>

theorem tab_switch_changes_only_the_tab:
  "content (step (TabChange t) s) = content s
   \<and> diagramHtml (step (TabChange t) s) = diagramHtml s
   \<and> renderCalls (step (TabChange t) s) = renderCalls s
   \<and> pending (step (TabChange t) s) = pending s
   \<and> previewPane (step (TabChange t) s) = previewPane s
   \<and> diagramPane (step (TabChange t) s) = diagramPane s
   \<and> outlinePane (step (TabChange t) s) = outlinePane s
   \<and> activeTab (step (TabChange t) s) = t"
  by (simp add: previewPane_def diagramPane_def outlinePane_def)

section \<open>The editor's change callback\<close>

text \<open>
  C10: after every change event the document text is a string; an undefined or null
  value is stored as the empty string, a string is stored as it is, and the preview is
  computed from a string. In every state the mounted component reaches, the document
  text is a string.
\<close>

theorem handleEditorChange_stores_string:
  "(\<exists>t. content (step (EditorChange v) s) = Str t)
   \<and> content (step (EditorChange Undefined) s) = Str []
   \<and> content (step (EditorChange Null) s) = Str []
   \<and> content (step (EditorChange (Str t')) s) = Str t'
   \<and> previewPane (step (EditorChange v) s) \<noteq> None
   \<and> (\<exists>t. content (run es (mounted text0)) = Str t)
   \<and> previewPane (run es (mounted text0)) \<noteq> None"
proof -
  obtain t where t: "js_or v (Str []) = Str t"
    using js_or_empty_is_string by blast
  have c: "content (step (EditorChange v) s) = Str t"
    by (simp add: handleEditorChange_def Let_def t)
  have "content (step (EditorChange (Str t')) s) = Str t'"
    by (cases "t' = []") (simp_all add: handleEditorChange_def Let_def js_or_def)
  moreover have "content (step (EditorChange Undefined) s) = Str []"
    "content (step (EditorChange Null) s) = Str []"
    by (simp_all add: handleEditorChange_def Let_def js_or_def)
  moreover have "previewPane (step (EditorChange v) s) \<noteq> None"
    unfolding previewPane_def c by simp
  moreover obtain u where u: "content (run es (mounted text0)) = Str u"
    using content_run_string [of "mounted text0" es] by (auto simp: mounted_def)
  moreover have "previewPane (run es (mounted text0)) \<noteq> None"
    unfolding previewPane_def u by simp
  ultimately show ?thesis using c by blast
qed

end
